theory Spec2Isabelle
  imports Complex_Main "HOL-Library.AList" "HOL-Library.Multiset" "HOL-Library.Log_Nat"
begin

section \<open>The mana analyzer of \<^verbatim>\<open>ManaAnalyzer.py\<close>\<close>

text \<open>
  The class \<^verbatim>\<open>ManaAnalyzer\<close> is embedded as a record of its instance attributes and one
  HOL function per method. A colour is a one-character Python string, so it is a \<^typ>\<open>char\<close>;
  a land label such as \<^verbatim>\<open>"WUG"\<close> is a \<^typ>\<open>string\<close>, and \<^verbatim>\<open>list(land)\<close> is the label itself.
  The dictionary \<^verbatim>\<open>land_base\<close> is an association list, because the methods iterate over it
  in insertion order. Exceptions are values of type \<open>error\<close>; the value \<open>InfiniteResult\<close>
  stands for a run that prints \<^verbatim>\<open>inf\<close> (see the section on floating point). The attribute \<^verbatim>\<open>deck_name\<close>
  only names the file that \<^verbatim>\<open>load_deck\<close> opens and is left out; \<^verbatim>\<open>n_of_simulations\<close> and
  \<^verbatim>\<open>max_tap_tries\<close> are attributes of the instance and can be set by a caller.
\<close>

datatype error = IndexError | ZeroDivisionError | TypeError | OverflowError | InfiniteResult

type_synonym color = char
type_synonym land = string

record analyzer =
  deck_colors :: "color list option"
  successful :: int
  impossible :: int
  total_tries :: int
  land_base :: "(land \<times> int) list"
  draw_pile :: "land list"
  n_of_simulations :: int
  max_tap_tries :: int

text \<open>The attribute \<^verbatim>\<open>land_types\<close> is assigned once in \<^verbatim>\<open>__init__\<close> and only read afterwards.\<close>

definition land_types :: "land list" where
  "land_types =
     [''W'', ''U'', ''B'', ''R'', ''G'',
      ''WU'', ''UB'', ''BR'', ''RG'', ''GW'', ''WB'', ''BG'', ''GU'', ''UR'', ''RW'',
      ''WUG'', ''WUB'', ''UBR'', ''BRG'', ''WRG'', ''WBR'', ''URG'', ''WBG'', ''WUR'', ''UBG'',
      ''WUBRG'', ''C'']"

text \<open>\<^verbatim>\<open>__init__\<close>: the state of a fresh instance.\<close>

definition init :: analyzer where
  "init = \<lparr>deck_colors = None, successful = 0, impossible = 0, total_tries = 0,
           land_base = [], draw_pile = [], n_of_simulations = 200000, max_tap_tries = 50\<rparr>"

definition reset :: "analyzer \<Rightarrow> analyzer" where
  "reset s = s\<lparr>deck_colors := None, successful := 0, impossible := 0, total_tries := 0\<rparr>"

subsection \<open>Loading the deck\<close>

text \<open>
  \<^verbatim>\<open>load_deck\<close> reads the first line of the deck file, splits it and converts the pieces
  with \<^verbatim>\<open>int\<close>. Reading and parsing are outside the embedding: the argument \<open>parts\<close> is the
  list of integers that \<^verbatim>\<open>int(parts_clean[index])\<close> yields for \<open>index = 0, 1, \<dots>\<close>. The
  first loop walks \<^verbatim>\<open>land_types\<close> and indexes \<^verbatim>\<open>parts_clean\<close>; an index beyond the end raises
  \<^verbatim>\<open>IndexError\<close>. Assigning to a dictionary key keeps the position of a key that is
  already present, which is what \<^const>\<open>AList.update\<close> does.
\<close>

fun load_entries :: "land list \<Rightarrow> int list \<Rightarrow> (land \<times> int) list \<Rightarrow> error + (land \<times> int) list" where
  "load_entries [] parts lb = Inr lb"
| "load_entries (land_type # ts) [] lb = Inl IndexError"
| "load_entries (land_type # ts) (p # ps) lb = load_entries ts ps (AList.update land_type p lb)"

text \<open>The second loop appends \<^verbatim>\<open>key\<close> to the draw pile \<^verbatim>\<open>range(value)\<close> times.\<close>

definition extend_pile :: "(land \<times> int) list \<Rightarrow> land list \<Rightarrow> land list" where
  "extend_pile lb pile = fold (\<lambda>(key, value) acc. acc @ replicate (nat value) key) lb pile"

definition load_deck :: "int list \<Rightarrow> analyzer \<Rightarrow> error + analyzer" where
  "load_deck parts s =
     (case load_entries land_types parts (land_base s) of
        Inl e \<Rightarrow> Inl e
      | Inr lb \<Rightarrow> Inr (s\<lparr>land_base := lb, draw_pile := extend_pile lb (draw_pile s)\<rparr>))"

subsection \<open>Colour identity\<close>

text \<open>The inner loop of \<^verbatim>\<open>get_color_id\<close> over the characters of one label.\<close>

fun add_colors :: "color list \<Rightarrow> color list \<Rightarrow> color list" where
  "add_colors [] dc = dc"
| "add_colors (c # cs) dc =
     add_colors cs (if c \<notin> set dc \<and> c \<noteq> CHR ''C'' then dc @ [c] else dc)"

text \<open>The outer loop, with its \<^verbatim>\<open>break\<close> inside the guarded block.\<close>

fun color_id_loop :: "(land \<times> int) list \<Rightarrow> color list \<Rightarrow> color list" where
  "color_id_loop [] dc = dc"
| "color_id_loop ((land, number) # rest) dc =
     (if land \<noteq> ''WUBRG'' \<and> number \<noteq> 0 then
        (let dc' = add_colors land dc
         in if length dc' = 5 then dc' else color_id_loop rest dc')
      else color_id_loop rest dc)"

definition get_color_id :: "analyzer \<Rightarrow> analyzer" where
  "get_color_id s = s\<lparr>deck_colors := Some (color_id_loop (land_base s) [])\<rparr>"

definition initialize :: "int list \<Rightarrow> analyzer \<Rightarrow> error + analyzer" where
  "initialize parts s =
     (case load_deck parts (reset s) of
        Inl e \<Rightarrow> Inl e
      | Inr s' \<Rightarrow> Inr (get_color_id s'))"

subsection \<open>Feasibility check\<close>

text \<open>
  The second loop of \<^verbatim>\<open>check_availability\<close>: the first required colour that no drawn label
  contains increments \<^verbatim>\<open>impossible\<close> and returns \<^verbatim>\<open>False\<close>.
\<close>

fun check_colors :: "color list \<Rightarrow> color list \<Rightarrow> analyzer \<Rightarrow> bool \<times> analyzer" where
  "check_colors [] possible s = (True, s)"
| "check_colors (c # cs) possible s =
     (if c \<notin> set possible then (False, s\<lparr>impossible := impossible s + 1\<rparr>)
      else check_colors cs possible s)"

text \<open>
  \<^verbatim>\<open>len(self.deck_colors)\<close> raises \<^verbatim>\<open>TypeError\<close> while the attribute is still \<^verbatim>\<open>None\<close>.
  The list \<^verbatim>\<open>all_possible_colors\<close> is the concatenation of the drawn labels.
\<close>

definition check_availability :: "land list \<Rightarrow> analyzer \<Rightarrow> error + (bool \<times> analyzer)" where
  "check_availability draws s =
     (case deck_colors s of
        None \<Rightarrow> Inl TypeError
      | Some dc \<Rightarrow>
          if length draws < length dc then Inr (False, s)
          else Inr (check_colors dc (concat draws) s))"

subsection \<open>Randomness\<close>

text \<open>
  The module \<^verbatim>\<open>random\<close> is a source of numbers. It is modelled by an arbitrary infinite
  sequence of naturals: \<^verbatim>\<open>_randbelow(k)\<close> takes the next number modulo \<open>k\<close>, so that a
  statement over all sequences covers every outcome the generator can have.
  \<^verbatim>\<open>choice\<close> raises \<^verbatim>\<open>IndexError\<close> on an empty sequence and otherwise returns
  \<^verbatim>\<open>seq[_randbelow(len(seq))]\<close>; \<^verbatim>\<open>shuffle\<close> is the library's loop
  \<^verbatim>\<open>for i in reversed(range(1, len(x))): j = _randbelow(i + 1); x[i], x[j] = x[j], x[i]\<close>.
\<close>

type_synonym rng = "nat \<Rightarrow> nat"

definition randbelow :: "nat \<Rightarrow> rng \<Rightarrow> nat \<times> rng" where
  "randbelow k g = (g 0 mod k, \<lambda>i. g (Suc i))"

definition choice :: "'a list \<Rightarrow> rng \<Rightarrow> error + ('a \<times> rng)" where
  "choice seq g =
     (if seq = [] then Inl IndexError
      else (case randbelow (length seq) g of (j, g') \<Rightarrow> Inr (seq ! j, g')))"

fun shuffle_from :: "nat \<Rightarrow> 'a list \<Rightarrow> rng \<Rightarrow> 'a list \<times> rng" where
  "shuffle_from 0 x g = (x, g)"
| "shuffle_from (Suc i) x g =
     (case randbelow (Suc i + 1) g of
        (j, g') \<Rightarrow> shuffle_from i (x[Suc i := x ! j, j := x ! Suc i]) g')"

definition shuffle :: "'a list \<Rightarrow> rng \<Rightarrow> 'a list \<times> rng" where
  "shuffle x g = shuffle_from (length x - 1) x g"

subsection \<open>Tap search\<close>

text \<open>One attempt: the loop over the drawn lands, collecting the distinct tapped colours.\<close>

fun tap_lands :: "color list \<Rightarrow> land list \<Rightarrow> color list \<Rightarrow> rng \<Rightarrow> error + (color list \<times> rng)" where
  "tap_lands dc [] available g = Inr (available, g)"
| "tap_lands dc (draw # draws) available g =
     (case (if length draw = 5 then choice dc g else choice draw g) of
        Inl e \<Rightarrow> Inl e
      | Inr (tapped, g') \<Rightarrow>
          tap_lands dc draws
            (if tapped \<notin> set available then available @ [tapped] else available) g')"

text \<open>
  The loop \<^verbatim>\<open>for n in range(self.max_tap_tries)\<close>: \<open>k\<close> attempts remain and \<open>n\<close> is the
  loop variable. When the range is used up the statement after the loop adds
  \<^verbatim>\<open>max_tap_tries\<close> to \<^verbatim>\<open>total_tries\<close>.
\<close>

fun tap_attempts :: "nat \<Rightarrow> nat \<Rightarrow> color list \<Rightarrow> land list \<Rightarrow> analyzer \<Rightarrow> rng \<Rightarrow> error + (analyzer \<times> rng)" where
  "tap_attempts 0 n dc draws s g = Inr (s\<lparr>total_tries := total_tries s + max_tap_tries s\<rparr>, g)"
| "tap_attempts (Suc k) n dc draws s g =
     (case tap_lands dc draws [] g of
        Inl e \<Rightarrow> Inl e
      | Inr (available, g') \<Rightarrow>
          if length available = length dc
          then Inr (s\<lparr>successful := successful s + 1, total_tries := total_tries s + int n\<rparr>, g')
          else tap_attempts k (Suc n) dc draws s g')"

text \<open>
  With \<^verbatim>\<open>deck_colors\<close> still \<^verbatim>\<open>None\<close> the first attempt does not get through: a five-letter
  label raises \<^verbatim>\<open>TypeError\<close> in \<^verbatim>\<open>choice(None)\<close>, an empty label raises \<^verbatim>\<open>IndexError\<close> in
  \<^verbatim>\<open>choice([])\<close>, and after the last land \<^verbatim>\<open>len(None)\<close> raises \<^verbatim>\<open>TypeError\<close>. Without any
  attempt the attribute is not read.
\<close>

fun tap_unset :: "land list \<Rightarrow> error" where
  "tap_unset [] = TypeError"
| "tap_unset (draw # draws) =
     (if length draw = 5 then TypeError
      else if draw = [] then IndexError
      else tap_unset draws)"

definition analyze_tap_options :: "land list \<Rightarrow> analyzer \<Rightarrow> rng \<Rightarrow> error + (analyzer \<times> rng)" where
  "analyze_tap_options draws s g =
     (case deck_colors s of
        None \<Rightarrow>
          if 0 < max_tap_tries s then Inl (tap_unset draws)
          else Inr (s\<lparr>total_tries := total_tries s + max_tap_tries s\<rparr>, g)
      | Some dc \<Rightarrow> tap_attempts (nat (max_tap_tries s)) 0 dc draws s g)"

subsection \<open>A full simulation\<close>

text \<open>The slice \<^verbatim>\<open>xs[:n]\<close>; a negative \<open>n\<close> counts from the end.\<close>

definition slice_to :: "'a list \<Rightarrow> int \<Rightarrow> 'a list" where
  "slice_to xs n = (if 0 \<le> n then take (nat n) xs else take (length xs - nat (- n)) xs)"

definition trial :: "int \<Rightarrow> analyzer \<Rightarrow> rng \<Rightarrow> error + (analyzer \<times> rng)" where
  "trial n_of_lands s g =
     (case shuffle (draw_pile s) g of
        (current_deck, g1) \<Rightarrow>
          (case check_availability (slice_to current_deck n_of_lands) s of
             Inl e \<Rightarrow> Inl e
           | Inr (ok, s1) \<Rightarrow>
               if ok then analyze_tap_options (slice_to current_deck n_of_lands) s1 g1
               else Inr (s1, g1)))"

fun trials :: "nat \<Rightarrow> int \<Rightarrow> analyzer \<Rightarrow> rng \<Rightarrow> error + (analyzer \<times> rng)" where
  "trials 0 n_of_lands s g = Inr (s, g)"
| "trials (Suc k) n_of_lands s g =
     (case trial n_of_lands s g of
        Inl e \<Rightarrow> Inl e
      | Inr (s', g') \<Rightarrow> trials k n_of_lands s' g')"

subsection \<open>Floating point\<close>

text \<open>
  A Python float is an IEEE binary64 number. A finite float is represented by the rational
  number it denotes, and every operation rounds its exact result to the nearest float,
  ties to the float with the even significand. For a positive rational \<open>x\<close>,
  \<open>ilog2 x\<close> is the exponent \<open>e\<close> with \<open>2\<^sup>e \<le> x < 2\<^sup>e\<^sup>+\<^sup>1\<close>; the floats near \<open>x\<close> are the
  multiples of \<open>2\<^sup>e\<^sup>-\<^sup>5\<^sup>2\<close>, or of \<open>2\<^sup>-\<^sup>1\<^sup>0\<^sup>7\<^sup>4\<close> in the subnormal range. A result whose rounded
  magnitude reaches \<open>2\<^sup>1\<^sup>0\<^sup>2\<^sup>4\<close>, that is, whose exponent is at least \<open>1024\<close>, is out of range. The
  sign of a zero is not represented.
\<close>

definition round_half_even :: "rat \<Rightarrow> int" where
  "round_half_even x =
     (let f = \<lfloor>x\<rfloor>; d = x - of_int f
      in if d < 1 / 2 then f else if 1 / 2 < d then f + 1 else if even f then f else f + 1)"

definition ilog2 :: "rat \<Rightarrow> int" where
  "ilog2 x =
     (case quotient_of x of
        (p, q) \<Rightarrow> let d = bitlen p - bitlen q in if 2 powi d \<le> x then d else d - 1)"

definition quantum :: "rat \<Rightarrow> rat" where
  "quantum x = 2 powi (max (ilog2 \<bar>x\<bar>) (- 1022) - 52)"

definition binary64 :: "rat \<Rightarrow> rat" where
  "binary64 x = (if x = 0 then 0 else of_int (round_half_even (x / quantum x)) * quantum x)"

definition overflows :: "rat \<Rightarrow> bool" where
  "overflows x \<longleftrightarrow> 1024 \<le> ilog2 \<bar>binary64 x\<bar>"

text \<open>
  The conversion of an \<^verbatim>\<open>int\<close> to a float and the true division \<^verbatim>\<open>a / b\<close> of two \<^verbatim>\<open>int\<close>s
  are correctly rounded and raise \<^verbatim>\<open>OverflowError\<close> out of range.
\<close>

definition float_of_int :: "int \<Rightarrow> error + rat" where
  "float_of_int i =
     (if overflows (of_int i) then Inl OverflowError else Inr (binary64 (of_int i)))"

definition int_truediv :: "int \<Rightarrow> int \<Rightarrow> error + rat" where
  "int_truediv a b =
     (if b = 0 then Inl ZeroDivisionError
      else if overflows (of_int a / of_int b) then Inl OverflowError
      else Inr (binary64 (of_int a / of_int b)))"

text \<open>
  The product and the quotient of two floats raise nothing out of range: the result is
  \<^verbatim>\<open>inf\<close>, which the later operations of \<^verbatim>\<open>run_simulation\<close> pass on and which is printed as
  \<^verbatim>\<open>inf\<close>. The model has no infinite number and ends with \<open>InfiniteResult\<close> there.
\<close>

definition float_mul :: "rat \<Rightarrow> rat \<Rightarrow> error + rat" where
  "float_mul x y = (if overflows (x * y) then Inl InfiniteResult else Inr (binary64 (x * y)))"

definition float_truediv :: "rat \<Rightarrow> rat \<Rightarrow> error + rat" where
  "float_truediv x y =
     (if y = 0 then Inl ZeroDivisionError
      else if overflows (x / y) then Inl InfiniteResult
      else Inr (binary64 (x / y)))"

text \<open>
  \<^verbatim>\<open>round(x, 2)\<close> of a float \<open>x\<close> takes the multiple of \<open>1/100\<close> nearest to the exact value of
  \<open>x\<close>, ties to the even multiple, and returns the float nearest to that decimal number.
\<close>

definition nearest_hundredth :: "rat \<Rightarrow> rat" where
  "nearest_hundredth x = of_int (round_half_even (x * 100)) / 100"

definition round2 :: "rat \<Rightarrow> error + rat" where
  "round2 x =
     (if overflows (nearest_hundredth x) then Inl OverflowError
      else Inr (binary64 (nearest_hundredth x)))"

subsection \<open>The two statistics\<close>

text \<open>\<^verbatim>\<open>round(self.total_tries / (self.n_of_simulations - self.impossible), 2)\<close>\<close>

definition average_of :: "analyzer \<Rightarrow> error + rat" where
  "average_of s =
     (case int_truediv (total_tries s) (n_of_simulations s - impossible s) of
        Inl e \<Rightarrow> Inl e
      | Inr q \<Rightarrow> round2 q)"

text \<open>
  \<^verbatim>\<open>round(self.successful * 100.0 / self.n_of_simulations, 2)\<close>: the counter is converted
  to a float and multiplied by \<open>100.0\<close>, then \<^verbatim>\<open>n_of_simulations\<close> is converted and divides
  the product. A product that is \<^verbatim>\<open>inf\<close> raises nothing, so the exceptions of the
  conversion and of the division by zero still come first.
\<close>

definition percentage_of :: "analyzer \<Rightarrow> error + rat" where
  "percentage_of s =
     (case float_of_int (successful s) of
        Inl e \<Rightarrow> Inl e
      | Inr f \<Rightarrow>
          (case float_mul f 100 of
             Inl e \<Rightarrow>
               (case float_of_int (n_of_simulations s) of
                  Inl e' \<Rightarrow> Inl e'
                | Inr d \<Rightarrow> if d = 0 then Inl ZeroDivisionError else Inl e)
           | Inr y \<Rightarrow>
               (case float_of_int (n_of_simulations s) of
                  Inl e \<Rightarrow> Inl e
                | Inr d \<Rightarrow>
                    (case float_truediv y d of
                       Inl e \<Rightarrow> Inl e
                     | Inr z \<Rightarrow> round2 z))))"

text \<open>
  \<^verbatim>\<open>run_simulation\<close> returns nothing and prints the two numbers; the model returns the
  final state, the remaining random numbers and the values of \<^verbatim>\<open>average_tries\<close> and
  \<^verbatim>\<open>percentage\<close>.
\<close>

definition run_simulation ::
    "int list \<Rightarrow> int \<Rightarrow> analyzer \<Rightarrow> rng \<Rightarrow> error + (analyzer \<times> rng \<times> rat \<times> rat)" where
  "run_simulation parts n_of_lands s g =
     (case initialize parts s of
        Inl e \<Rightarrow> Inl e
      | Inr s1 \<Rightarrow>
          (case trials (nat (n_of_simulations s1)) n_of_lands s1 g of
             Inl e \<Rightarrow> Inl e
           | Inr (s2, g2) \<Rightarrow>
               (case average_of s2 of
                  Inl e \<Rightarrow> Inl e
                | Inr average_tries \<Rightarrow>
                    (case percentage_of s2 of
                       Inl e \<Rightarrow> Inl e
                     | Inr percentage \<Rightarrow> Inr (s2, g2, average_tries, percentage)))))"

subsection \<open>The invariant of the counters\<close>

text \<open>
  After \<open>k\<close> trials of a run the three counters are related as follows: every trial
  adds one to at most one of \<^verbatim>\<open>successful\<close> and \<^verbatim>\<open>impossible\<close>, and a trial that is not
  counted as impossible adds at most \<^verbatim>\<open>max_tap_tries\<close> to \<^verbatim>\<open>total_tries\<close>.
\<close>

definition tally_ok :: "int \<Rightarrow> analyzer \<Rightarrow> bool" where
  "tally_ok k s \<longleftrightarrow>
     0 \<le> successful s \<and> 0 \<le> impossible s \<and> 0 \<le> total_tries s \<and>
     successful s + impossible s \<le> k \<and>
     total_tries s \<le> max_tap_tries s * (k - impossible s)"

text \<open>The attributes that no trial assigns.\<close>

definition same_setup :: "analyzer \<Rightarrow> analyzer \<Rightarrow> bool" where
  "same_setup s s' \<longleftrightarrow>
     deck_colors s' = deck_colors s \<and> land_base s' = land_base s \<and>
     draw_pile s' = draw_pile s \<and> n_of_simulations s' = n_of_simulations s \<and>
     max_tap_tries s' = max_tap_tries s"

subsection \<open>The colour identity as a set\<close>

text \<open>
  The colours that \<^verbatim>\<open>get_color_id\<close> collects, as a set: the characters other than C of
  every label other than WUBRG whose count is not zero.
\<close>

definition contributing_colors :: "(land \<times> int) list \<Rightarrow> color set" where
  "contributing_colors lb =
     (\<Union>(land, number)\<in>set lb.
        if land \<noteq> ''WUBRG'' \<and> number \<noteq> 0 then set land - {CHR ''C''} else {})"

text \<open>
  The required colour set in the words of the specification's testable property: the
  union of the colour symbols of all labels with a nonzero count, where the symbol C
  contributes nothing and the symbols of the label WUBRG do contribute.
\<close>

definition spec_required_colors :: "(land \<times> int) list \<Rightarrow> color set" where
  "spec_required_colors lb =
     (\<Union>(land, number)\<in>set lb. if number \<noteq> 0 then set land - {CHR ''C''} else {})"

subsection \<open>The tap search in the words of the specification\<close>

text \<open>
  The specification calls an attempt successful when the set of distinct colours produced
  equals the required colour set. This is the loop of \<^const>\<open>tap_attempts\<close> with that test
  in place of the comparison of the two lengths.
\<close>

fun spec_tap_attempts :: "nat \<Rightarrow> nat \<Rightarrow> color list \<Rightarrow> land list \<Rightarrow> analyzer \<Rightarrow> rng \<Rightarrow> error + (analyzer \<times> rng)" where
  "spec_tap_attempts 0 n dc draws s g =
     Inr (s\<lparr>total_tries := total_tries s + max_tap_tries s\<rparr>, g)"
| "spec_tap_attempts (Suc k) n dc draws s g =
     (case tap_lands dc draws [] g of
        Inl e \<Rightarrow> Inl e
      | Inr (available, g') \<Rightarrow>
          if set available = set dc
          then Inr (s\<lparr>successful := successful s + 1, total_tries := total_tries s + int n\<rparr>, g')
          else spec_tap_attempts k (Suc n) dc draws s g')"

subsection \<open>Deck files for the examples\<close>

text \<open>
  The content of a deck file that gives the listed labels their counts and every other
  label the count \<open>0\<close>, in the order of \<^const>\<open>land_types\<close>.
\<close>

definition deck_of :: "(land \<times> int) list \<Rightarrow> int list" where
  "deck_of al = map (\<lambda>t. case map_of al t of None \<Rightarrow> 0 | Some n \<Rightarrow> n) land_types"

section \<open>What one trial does to the counters\<close>

text \<open>
  One trial changes the state in one of four ways: not at all, by one more impossible
  trial, by one more success with the index of the successful attempt added to
  \<^verbatim>\<open>total_tries\<close>, or by \<^verbatim>\<open>max_tap_tries\<close> added to \<^verbatim>\<open>total_tries\<close>.
\<close>

lemma check_colors_result:
  "check_colors dc possible s = (b, s') \<Longrightarrow>
     s' = (if b then s else s\<lparr>impossible := impossible s + 1\<rparr>)"
  by (induction dc) (auto split: if_splits)

lemma check_availability_result:
  assumes "check_availability draws s = Inr (b, s')"
  shows "(b \<and> s' = s) \<or> (\<not> b \<and> (s' = s \<or> s' = s\<lparr>impossible := impossible s + 1\<rparr>))"
proof (cases "deck_colors s")
  case None
  with assms show ?thesis by (simp add: check_availability_def)
next
  case (Some dc)
  show ?thesis
  proof (cases "length draws < length dc")
    case True
    with assms Some show ?thesis by (simp add: check_availability_def)
  next
    case False
    with assms Some have "check_colors dc (concat draws) s = (b, s')"
      by (simp add: check_availability_def)
    from check_colors_result[OF this] show ?thesis by (cases b) simp_all
  qed
qed

lemma check_availability_too_few:
  "deck_colors s = Some dc \<Longrightarrow> length draws < length dc \<Longrightarrow>
     check_availability draws s = Inr (False, s)"
  by (simp add: check_availability_def)

lemma tap_attempts_result:
  "tap_attempts k n dc draws s g = Inr (s', g') \<Longrightarrow>
     (\<exists>m. n \<le> m \<and> m < n + k \<and>
          s' = s\<lparr>successful := successful s + 1, total_tries := total_tries s + int m\<rparr>) \<or>
     s' = s\<lparr>total_tries := total_tries s + max_tap_tries s\<rparr>"
proof (induction k arbitrary: n g)
  case 0
  then show ?case by simp
next
  case (Suc k)
  show ?case
  proof (cases "tap_lands dc draws [] g")
    case (Inl e)
    with Suc.prems show ?thesis by simp
  next
    case (Inr r)
    obtain available g1 where r: "r = (available, g1)" by (cases r)
    show ?thesis
    proof (cases "length available = length dc")
      case True
      with Suc.prems Inr r
      have "s' = s\<lparr>successful := successful s + 1, total_tries := total_tries s + int n\<rparr>"
        by simp
      then have "n \<le> n \<and> n < n + Suc k \<and>
          s' = s\<lparr>successful := successful s + 1, total_tries := total_tries s + int n\<rparr>"
        by simp
      then show ?thesis by (rule exI[THEN disjI1])
    next
      case False
      with Suc.prems Inr r have "tap_attempts k (Suc n) dc draws s g1 = Inr (s', g')"
        by simp
      from Suc.IH[OF this] show ?thesis
      proof
        assume "\<exists>m. Suc n \<le> m \<and> m < Suc n + k \<and>
          s' = s\<lparr>successful := successful s + 1, total_tries := total_tries s + int m\<rparr>"
        then obtain m where m: "Suc n \<le> m" "m < Suc n + k"
          and s': "s' = s\<lparr>successful := successful s + 1, total_tries := total_tries s + int m\<rparr>"
          by blast
        from m have "n \<le> m" "m < n + Suc k" by simp_all
        with s' have "n \<le> m \<and> m < n + Suc k \<and>
            s' = s\<lparr>successful := successful s + 1, total_tries := total_tries s + int m\<rparr>"
          by (intro conjI)
        then show ?thesis by (rule exI[THEN disjI1])
      next
        assume "s' = s\<lparr>total_tries := total_tries s + max_tap_tries s\<rparr>"
        then show ?thesis by (rule disjI2)
      qed
    qed
  qed
qed

lemma analyze_tap_options_result:
  assumes "analyze_tap_options draws s g = Inr (s', g')"
  shows "(\<exists>m. 0 \<le> m \<and> m < max_tap_tries s \<and>
            s' = s\<lparr>successful := successful s + 1, total_tries := total_tries s + m\<rparr>) \<or>
         s' = s\<lparr>total_tries := total_tries s + max_tap_tries s\<rparr>"
proof (cases "deck_colors s")
  case None
  with assms show ?thesis
    by (simp add: analyze_tap_options_def split: if_splits)
next
  case (Some dc)
  with assms have "tap_attempts (nat (max_tap_tries s)) 0 dc draws s g = Inr (s', g')"
    by (simp add: analyze_tap_options_def)
  from tap_attempts_result[OF this] show ?thesis
  proof
    assume "\<exists>m. 0 \<le> m \<and> m < 0 + nat (max_tap_tries s) \<and>
        s' = s\<lparr>successful := successful s + 1, total_tries := total_tries s + int m\<rparr>"
    then obtain m where m: "m < nat (max_tap_tries s)"
      and s': "s' = s\<lparr>successful := successful s + 1, total_tries := total_tries s + int m\<rparr>"
      by auto
    from m have "0 \<le> int m" "int m < max_tap_tries s" by simp_all
    with s' have "0 \<le> int m \<and> int m < max_tap_tries s \<and>
        s' = s\<lparr>successful := successful s + 1, total_tries := total_tries s + int m\<rparr>"
      by (intro conjI)
    then show ?thesis by (rule exI[THEN disjI1])
  next
    assume "s' = s\<lparr>total_tries := total_tries s + max_tap_tries s\<rparr>"
    then show ?thesis by (rule disjI2)
  qed
qed

lemma trial_result:
  assumes "trial n_of_lands s g = Inr (s', g')"
  shows "s' = s \<or> s' = s\<lparr>impossible := impossible s + 1\<rparr> \<or>
         (\<exists>m. 0 \<le> m \<and> m < max_tap_tries s \<and>
            s' = s\<lparr>successful := successful s + 1, total_tries := total_tries s + m\<rparr>) \<or>
         s' = s\<lparr>total_tries := total_tries s + max_tap_tries s\<rparr>"
proof -
  obtain current_deck g1 where sh: "shuffle (draw_pile s) g = (current_deck, g1)"
    by (cases "shuffle (draw_pile s) g")
  define draws where "draws = slice_to current_deck n_of_lands"
  show ?thesis
  proof (cases "check_availability draws s")
    case (Inl e)
    with assms sh show ?thesis by (simp add: trial_def draws_def)
  next
    case (Inr r)
    obtain ok s1 where r: "r = (ok, s1)" by (cases r)
    note ca = check_availability_result[OF Inr[unfolded r]]
    show ?thesis
    proof (cases ok)
      case True
      with ca have s1: "s1 = s" by simp
      from assms sh Inr r True have "analyze_tap_options draws s1 g1 = Inr (s', g')"
        by (simp add: trial_def draws_def)
      from analyze_tap_options_result[OF this[unfolded s1]] show ?thesis by simp
    next
      case False
      from assms sh Inr r False have "s' = s1"
        by (simp add: trial_def draws_def)
      with ca False have "s' = s \<or> s' = s\<lparr>impossible := impossible s + 1\<rparr>" by simp
      then show ?thesis by blast
    qed
  qed
qed

lemma trial_same_setup:
  assumes "trial n_of_lands s g = Inr (s', g')"
  shows "same_setup s s'"
  using trial_result[OF assms]
  by (elim disjE exE conjE) (simp_all add: same_setup_def)

lemma trial_impossible_mono:
  assumes "trial n_of_lands s g = Inr (s', g')"
  shows "impossible s \<le> impossible s'"
  using trial_result[OF assms] by (elim disjE exE conjE) simp_all

lemma trials_impossible_mono:
  "trials j n_of_lands s g = Inr (s', g') \<Longrightarrow> impossible s \<le> impossible s'"
proof (induction j arbitrary: s g)
  case 0
  then show ?case by simp
next
  case (Suc j)
  from Suc.prems obtain s1 g1 where t: "trial n_of_lands s g = Inr (s1, g1)"
    and rest: "trials j n_of_lands s1 g1 = Inr (s', g')"
    by (auto split: sum.splits)
  from trial_impossible_mono[OF t] Suc.IH[OF rest] show ?case by simp
qed

lemma trial_tally:
  assumes t: "trial n_of_lands s g = Inr (s', g')"
    and inv: "tally_ok k s" and cap: "0 \<le> max_tap_tries s"
  shows "tally_ok (k + 1) s'"
  using trial_result[OF t]
proof (elim disjE exE conjE)
  assume "s' = s"
  with inv cap show ?thesis
    by (simp add: tally_ok_def algebra_simps)
next
  assume "s' = s\<lparr>impossible := impossible s + 1\<rparr>"
  with inv cap show ?thesis
    by (simp add: tally_ok_def algebra_simps)
next
  fix m assume "0 \<le> m" "m < max_tap_tries s"
    and "s' = s\<lparr>successful := successful s + 1, total_tries := total_tries s + m\<rparr>"
  with inv cap show ?thesis
    by (simp add: tally_ok_def algebra_simps)
next
  assume "s' = s\<lparr>total_tries := total_tries s + max_tap_tries s\<rparr>"
  with inv cap show ?thesis
    by (simp add: tally_ok_def algebra_simps)
qed

lemma trials_invariant:
  "trials j n_of_lands s g = Inr (s', g') \<Longrightarrow> tally_ok k s \<Longrightarrow> 0 \<le> max_tap_tries s \<Longrightarrow>
     tally_ok (k + int j) s' \<and> same_setup s s'"
proof (induction j arbitrary: s g k)
  case 0
  then show ?case by (simp add: same_setup_def)
next
  case (Suc j)
  from Suc.prems(1) obtain s1 g1 where t: "trial n_of_lands s g = Inr (s1, g1)"
    and rest: "trials j n_of_lands s1 g1 = Inr (s', g')"
    by (auto split: sum.splits)
  have ss: "same_setup s s1" by (rule trial_same_setup[OF t])
  have inv1: "tally_ok (k + 1) s1" by (rule trial_tally[OF t Suc.prems(2,3)])
  from ss Suc.prems(3) have cap1: "0 \<le> max_tap_tries s1" by (simp add: same_setup_def)
  from Suc.IH[OF rest inv1 cap1] ss show ?case
    by (simp add: same_setup_def add.assoc)
qed

section \<open>Initialisation and the draw pile\<close>

lemma load_deck_counters:
  assumes "load_deck parts s = Inr s'"
  shows "successful s' = successful s \<and> impossible s' = impossible s \<and>
         total_tries s' = total_tries s \<and> n_of_simulations s' = n_of_simulations s \<and>
         max_tap_tries s' = max_tap_tries s \<and> deck_colors s' = deck_colors s"
  using assms by (auto simp: load_deck_def split: sum.splits)

lemma initialize_counters:
  assumes "initialize parts s = Inr s1"
  shows "successful s1 = 0 \<and> impossible s1 = 0 \<and> total_tries s1 = 0 \<and>
         n_of_simulations s1 = n_of_simulations s \<and> max_tap_tries s1 = max_tap_tries s"
proof -
  from assms obtain s' where ld: "load_deck parts (reset s) = Inr s'"
    and s1: "s1 = get_color_id s'"
    by (auto simp: initialize_def split: sum.splits)
  from load_deck_counters[OF ld] s1 show ?thesis
    by (simp add: get_color_id_def reset_def)
qed

lemma initialize_tally:
  assumes "initialize parts s = Inr s1"
  shows "tally_ok 0 s1"
  using initialize_counters[OF assms] by (simp add: tally_ok_def)

lemma update_fresh: "k \<notin> fst ` set al \<Longrightarrow> AList.update k v al = al @ [(k, v)]"
  by (induction al) auto

lemma update_middle:
  "k \<notin> fst ` set al \<Longrightarrow> AList.update k v (al @ (k, w) # rest) = al @ (k, v) # rest"
  by (induction al) auto

lemma load_entries_short:
  "length ps < length ts \<Longrightarrow> load_entries ts ps lb = Inl IndexError"
  by (induction ts ps lb rule: load_entries.induct) simp_all

lemma load_entries_keys:
  "load_entries ts ps lb = Inr lb' \<Longrightarrow> fst ` set lb' = fst ` set lb \<union> set ts"
proof (induction ts ps lb rule: load_entries.induct)
  case (1 parts lb)
  then show ?case by simp
next
  case (2 land_type ts lb)
  then show ?case by simp
next
  case (3 land_type ts p ps lb)
  from 3 have "fst ` set lb' = fst ` set (AList.update land_type p lb) \<union> set ts" by simp
  moreover have "fst ` set (AList.update land_type p lb) = insert land_type (fst ` set lb)"
    by (simp add: dom_update)
  ultimately show ?case by auto
qed

lemma load_entries_fresh:
  "distinct ts \<Longrightarrow> set ts \<inter> fst ` set lb = {} \<Longrightarrow> length ts \<le> length ps \<Longrightarrow>
     load_entries ts ps lb = Inr (lb @ zip ts ps)"
proof (induction ts ps lb rule: load_entries.induct)
  case (1 parts lb)
  then show ?case by simp
next
  case (2 land_type ts lb)
  then show ?case by simp
next
  case (3 land_type ts p ps lb)
  from "3.prems" have new: "land_type \<notin> fst ` set lb" by auto
  then have u: "AList.update land_type p lb = lb @ [(land_type, p)]" by (rule update_fresh)
  from "3.prems" have "distinct ts" "set ts \<inter> fst ` set (lb @ [(land_type, p)]) = {}"
    "length ts \<le> length ps" by auto
  with "3.IH" u show ?case by simp
qed

lemma load_entries_overwrite:
  "distinct ts \<Longrightarrow> set ts \<inter> fst ` set al = {} \<Longrightarrow> length ts \<le> length ps \<Longrightarrow>
   length ts \<le> length qs \<Longrightarrow>
     load_entries ts ps (al @ zip ts qs) = Inr (al @ zip ts ps)"
proof (induction ts arbitrary: ps qs al)
  case Nil
  then show ?case by simp
next
  case (Cons t ts)
  from Cons.prems obtain p ps' where ps: "ps = p # ps'" by (cases ps) auto
  from Cons.prems obtain q qs' where qs: "qs = q # qs'" by (cases qs) auto
  from Cons.prems have new: "t \<notin> fst ` set al" by auto
  have u: "AList.update t p (al @ (t, q) # zip ts qs') = al @ (t, p) # zip ts qs'"
    using new by (rule update_middle)
  from Cons.prems ps qs have "distinct ts" "set ts \<inter> fst ` set (al @ [(t, p)]) = {}"
    "length ts \<le> length ps'" "length ts \<le> length qs'" by auto
  from Cons.IH[OF this]
  have "load_entries ts ps' ((al @ [(t, p)]) @ zip ts qs') = Inr ((al @ [(t, p)]) @ zip ts ps')" .
  with u ps qs show ?case by simp
qed

lemma extend_pile_append:
  "extend_pile lb pile = pile @ concat (map (\<lambda>(key, value). replicate (nat value) key) lb)"
  unfolding extend_pile_def
  by (induction lb arbitrary: pile) (auto simp: case_prod_beta)

lemma count_list_replicate: "count_list (replicate n x) y = (if x = y then n else 0)"
  by (induction n) auto

lemma pile_count_absent:
  "land \<notin> fst ` set lb \<Longrightarrow>
     count_list (concat (map (\<lambda>(key, value). replicate (nat value) key) lb)) land = 0"
  by (induction lb) (auto simp: count_list_replicate)

lemma pile_count:
  assumes "distinct (map fst lb)" and "(land, number) \<in> set lb"
  shows "count_list (concat (map (\<lambda>(key, value). replicate (nat value) key) lb)) land =
           nat number"
  using assms
proof (induction lb)
  case Nil
  then show ?case by simp
next
  case (Cons entry lb)
  obtain key number' where e: "entry = (key, number')" by (cases entry)
  show ?case
  proof (cases "(land, number) = entry")
    case True
    with Cons.prems(1) e have "land \<notin> fst ` set lb" by auto
    from pile_count_absent[OF this] True e show ?thesis
      by (simp add: count_list_replicate)
  next
    case False
    with Cons.prems e have mem: "(land, number) \<in> set lb" and d: "distinct (map fst lb)"
      by auto
    from mem have "land \<in> fst ` set lb" by (auto simp: image_iff intro: bexI[of _ "(land, number)"])
    with Cons.prems(1) e have "key \<noteq> land" by auto
    with Cons.IH[OF d mem] e show ?thesis by (simp add: count_list_replicate)
  qed
qed

lemma pile_length:
  "length (concat (map (\<lambda>(key, value). replicate (nat value) key) lb)) =
     sum_list (map (\<lambda>(key, value). nat value) lb)"
  by (induction lb) (auto simp: case_prod_beta)

lemma land_types_distinct: "distinct land_types"
  by (simp add: land_types_def)

lemma land_types_length: "length land_types = 27"
  by (simp add: land_types_def)

lemma land_types_symbols: "\<forall>land\<in>set land_types. set land \<subseteq> set ''WUBRGC''"
  by (simp add: land_types_def)

lemma initialize_from_entries:
  assumes "load_entries land_types parts (land_base s) = Inr lb"
  shows "initialize parts s =
     Inr (s\<lparr>deck_colors := Some (color_id_loop lb []), successful := 0, impossible := 0,
            total_tries := 0, land_base := lb,
            draw_pile := draw_pile s @
              concat (map (\<lambda>(key, value). replicate (nat value) key) lb)\<rparr>)"
  using assms
  by (simp add: initialize_def load_deck_def reset_def get_color_id_def extend_pile_append)

lemma initialize_fresh:
  assumes "land_base s = []" and "27 \<le> length parts"
  shows "initialize parts s =
     Inr (s\<lparr>deck_colors := Some (color_id_loop (zip land_types parts) []),
            successful := 0, impossible := 0, total_tries := 0,
            land_base := zip land_types parts,
            draw_pile := draw_pile s @
              concat (map (\<lambda>(key, value). replicate (nat value) key) (zip land_types parts))\<rparr>)"
proof -
  from assms(2) have "load_entries land_types parts [] = Inr ([] @ zip land_types parts)"
    by (intro load_entries_fresh) (simp_all add: land_types_distinct land_types_length)
  with assms(1) have "load_entries land_types parts (land_base s) = Inr (zip land_types parts)"
    by simp
  then show ?thesis by (rule initialize_from_entries)
qed

lemma initialize_again:
  assumes "land_base s = zip land_types qs" and "27 \<le> length qs" and "27 \<le> length parts"
  shows "initialize parts s =
     Inr (s\<lparr>deck_colors := Some (color_id_loop (zip land_types parts) []),
            successful := 0, impossible := 0, total_tries := 0,
            land_base := zip land_types parts,
            draw_pile := draw_pile s @
              concat (map (\<lambda>(key, value). replicate (nat value) key) (zip land_types parts))\<rparr>)"
proof -
  from assms(2,3)
  have "load_entries land_types parts ([] @ zip land_types qs) = Inr ([] @ zip land_types parts)"
    by (intro load_entries_overwrite) (simp_all add: land_types_distinct land_types_length)
  with assms(1) have "load_entries land_types parts (land_base s) = Inr (zip land_types parts)"
    by simp
  then show ?thesis by (rule initialize_from_entries)
qed

lemma initialize_short:
  assumes "length parts < 27"
  shows "initialize parts s = Inl IndexError"
proof -
  from assms have "load_entries land_types parts (land_base (reset s)) = Inl IndexError"
    by (intro load_entries_short) (simp add: land_types_length)
  then show ?thesis by (simp add: initialize_def load_deck_def)
qed

lemma first_call_draw_pile:
  assumes "land_base s = []" and "draw_pile s = []" and "27 \<le> length parts"
    and "initialize parts s = Inr s1"
  shows "land_base s1 = zip land_types parts \<and>
         (\<forall>(land, number)\<in>set (land_base s1). count_list (draw_pile s1) land = nat number) \<and>
         length (draw_pile s1) = sum_list (map (\<lambda>(key, value). nat value) (land_base s1)) \<and>
         successful s1 = 0 \<and> impossible s1 = 0 \<and> total_tries s1 = 0"
proof -
  from initialize_fresh[OF assms(1,3)] assms(2,4)
  have lb: "land_base s1 = zip land_types parts"
    and dp: "draw_pile s1 =
      concat (map (\<lambda>(key, value). replicate (nat value) key) (zip land_types parts))"
    and c: "successful s1 = 0 \<and> impossible s1 = 0 \<and> total_tries s1 = 0"
    by auto
  have "distinct (map fst (zip land_types parts))"
    using land_types_distinct by (simp add: map_fst_zip_take)
  then have "\<forall>(land, number)\<in>set (zip land_types parts).
      count_list (concat (map (\<lambda>(key, value). replicate (nat value) key)
        (zip land_types parts))) land = nat number"
    by (auto simp: pile_count)
  with lb dp c show ?thesis by (simp add: pile_length)
qed

lemma later_call_draw_pile:
  assumes "land_base s = zip land_types qs" and "27 \<le> length qs" and "27 \<le> length parts"
    and "initialize parts s = Inr s1"
  shows "draw_pile s1 =
           draw_pile s @
           concat (map (\<lambda>(key, value). replicate (nat value) key) (zip land_types parts)) \<and>
         length (draw_pile s1) =
           length (draw_pile s) + sum_list (map (\<lambda>(key, value). nat value) (land_base s1))"
proof -
  from initialize_again[OF assms(1-3)] assms(4)
  have "land_base s1 = zip land_types parts"
    and "draw_pile s1 = draw_pile s @
      concat (map (\<lambda>(key, value). replicate (nat value) key) (zip land_types parts))"
    by auto
  then show ?thesis by (simp add: pile_length)
qed

text \<open>
  C7. \<^verbatim>\<open>reset\<close> clears the counters and the colour identity but not \<^verbatim>\<open>draw_pile\<close>, and
  \<^verbatim>\<open>load_deck\<close> only appends to it. After the first call the pile of a deck with one plains
  has one entry and the counters are zero; the second call on the same instance starts
  with zero counters again but with two entries in the pile, while the counts of the land
  base still add up to one. In general the first call builds the pile the claim describes
  (\<open>first_call_draw_pile\<close>) and every later call appends a further copy
  (\<open>later_call_draw_pile\<close>).
\<close>

theorem second_run_doubles_draw_pile:
  "map_sum id (\<lambda>s. (draw_pile s, sum_list (map snd (land_base s)),
                     successful s, impossible s, total_tries s))
     (initialize (deck_of [(''W'', 1)]) (init\<lparr>n_of_simulations := 1\<rparr>)) =
     Inr ([''W''], 1, 0, 0, 0) \<and>
   map_sum id (\<lambda>(s, g, average_tries, percentage).
       (draw_pile s, successful s, impossible s, total_tries s))
     (run_simulation (deck_of [(''W'', 1)]) 1 (init\<lparr>n_of_simulations := 1\<rparr>) (\<lambda>_. 0)) =
     Inr ([''W''], 1, 0, 0) \<and>
   map_sum id (\<lambda>s. (draw_pile s, sum_list (map snd (land_base s)),
                     successful s, impossible s, total_tries s))
     (initialize (deck_of [(''W'', 1)])
        (init\<lparr>n_of_simulations := 1, deck_colors := Some ''W'',
              land_base := zip land_types (deck_of [(''W'', 1)]),
              draw_pile := [''W''], successful := 1\<rparr>)) =
     Inr ([''W'', ''W''], 1, 0, 0, 0) \<and>
   map_sum id (\<lambda>(s, g, average_tries, percentage). s)
     (run_simulation (deck_of [(''W'', 1)]) 1 (init\<lparr>n_of_simulations := 1\<rparr>) (\<lambda>_. 0)) =
     Inr (init\<lparr>n_of_simulations := 1, deck_colors := Some ''W'',
              land_base := zip land_types (deck_of [(''W'', 1)]),
              draw_pile := [''W''], successful := 1\<rparr>)"
  by code_simp

section \<open>The colour identity\<close>

lemma add_colors_set: "set (add_colors cs dc) = set dc \<union> (set cs - {CHR ''C''})"
  by (induction cs arbitrary: dc) auto

lemma add_colors_distinct: "distinct dc \<Longrightarrow> distinct (add_colors cs dc)"
  by (induction cs arbitrary: dc) auto

lemma color_id_loop_no_C:
  "CHR ''C'' \<notin> set dc \<Longrightarrow> CHR ''C'' \<notin> set (color_id_loop lb dc)"
proof (induction lb arbitrary: dc)
  case Nil
  then show ?case by simp
next
  case (Cons entry lb)
  obtain land number where e: "entry = (land, number)" by (cases entry)
  from Cons.prems have "CHR ''C'' \<notin> set (add_colors land dc)"
    by (simp add: add_colors_set)
  with Cons.IH Cons.prems e show ?case by (simp add: Let_def)
qed

lemma contributing_colors_Nil: "contributing_colors [] = {}"
  by (simp add: contributing_colors_def)

lemma contributing_colors_Cons:
  "contributing_colors ((land, number) # lb) =
     (if land \<noteq> ''WUBRG'' \<and> number \<noteq> 0 then set land - {CHR ''C''} else {}) \<union>
     contributing_colors lb"
  by (simp add: contributing_colors_def)

lemma contributing_colors_subset:
  assumes "\<forall>entry\<in>set lb. set (fst entry) \<subseteq> set ''WUBRGC''"
  shows "contributing_colors lb \<subseteq> set ''WUBRG''"
  using assms by (fastforce simp: contributing_colors_def split: if_splits)

lemma five_colors_full:
  assumes "distinct dc" and "set dc \<subseteq> set ''WUBRG''" and "length dc = 5"
  shows "set dc = set ''WUBRG''"
proof -
  have "card (set ''WUBRG'') = 5" by simp
  moreover from assms(1,3) have "card (set dc) = 5" by (simp add: distinct_card)
  ultimately have "card (set ''WUBRG'') \<le> card (set dc)" by simp
  with assms(2) show ?thesis by (intro card_seteq) simp_all
qed

lemma color_id_loop_set:
  assumes "\<forall>entry\<in>set lb. set (fst entry) \<subseteq> set ''WUBRGC''"
    and "distinct dc" and "set dc \<subseteq> set ''WUBRG''"
  shows "distinct (color_id_loop lb dc) \<and>
         set (color_id_loop lb dc) = set dc \<union> contributing_colors lb"
  using assms
proof (induction lb arbitrary: dc)
  case Nil
  then show ?case by (simp add: contributing_colors_Nil)
next
  case (Cons entry lb)
  obtain land number where e: "entry = (land, number)" by (cases entry)
  from Cons.prems(1) have rest: "\<forall>entry\<in>set lb. set (fst entry) \<subseteq> set ''WUBRGC''"
    by simp
  from Cons.prems(1) e have land: "set land \<subseteq> set ''WUBRGC''" by simp
  show ?case
  proof (cases "land \<noteq> ''WUBRG'' \<and> number \<noteq> 0")
    case False
    with Cons.IH[OF rest Cons.prems(2,3)] e show ?thesis
      by (auto simp: contributing_colors_Cons)
  next
    case True
    let ?dc' = "add_colors land dc"
    have d': "distinct ?dc'" using Cons.prems(2) by (rule add_colors_distinct)
    have s': "set ?dc' = set dc \<union> (set land - {CHR ''C''})" by (rule add_colors_set)
    with Cons.prems(3) land have sub': "set ?dc' \<subseteq> set ''WUBRG''" by auto
    show ?thesis
    proof (cases "length ?dc' = 5")
      case five: True
      from five_colors_full[OF d' sub' five] contributing_colors_subset[OF rest]
      have "contributing_colors lb \<subseteq> set ?dc'" by simp
      then have "set ?dc' = set dc \<union> (set land - {CHR ''C''}) \<union> contributing_colors lb"
        using s' by auto
      with True five d' e show ?thesis
        by (simp add: contributing_colors_Cons Let_def Un_assoc)
    next
      case False
      from Cons.IH[OF rest d' sub'] s'
      have "distinct (color_id_loop lb ?dc') \<and>
            set (color_id_loop lb ?dc') =
              set dc \<union> (set land - {CHR ''C''}) \<union> contributing_colors lb"
        by simp
      with True False e show ?thesis
        by (simp add: contributing_colors_Cons Let_def Un_assoc)
    qed
  qed
qed

text \<open>
  C3, as the specification states it, fails. For a deck that holds a single WUBRG land the
  union of the colour symbols of all labels with a nonzero count is W, U, B, R, G, but
  \<^verbatim>\<open>get_color_id\<close> skips the label WUBRG and leaves the colour identity empty.
\<close>

theorem color_identity_counterexample:
  "initialize (deck_of [(''WUBRG'', 1)]) init =
     Inr (init\<lparr>deck_colors := Some [],
               land_base := zip land_types (deck_of [(''WUBRG'', 1)]),
               draw_pile := [''WUBRG'']\<rparr>) \<and>
   spec_required_colors (zip land_types (deck_of [(''WUBRG'', 1)])) = set ''WUBRG'' \<and>
   set ''WUBRG'' \<noteq> set ''''"
  by code_simp

text \<open>
  C3, amended. After initialisation the colour identity has no repetitions, at most five
  entries, and is, as a set, the union of the colour symbols of all labels with a nonzero
  count other than the label WUBRG, where the symbol C contributes nothing. (The land base
  of an analyzer only ever has labels of \<^verbatim>\<open>land_types\<close> as keys.)
\<close>

theorem color_identity_union:
  assumes "initialize parts s = Inr s1"
    and "fst ` set (land_base s) \<subseteq> set land_types"
  shows "\<exists>dc. deck_colors s1 = Some dc \<and> distinct dc \<and> length dc \<le> 5 \<and>
           set dc = contributing_colors (land_base s1)"
proof -
  from assms(1) obtain lb where le: "load_entries land_types parts (land_base s) = Inr lb"
    and lb: "land_base s1 = lb" and dc: "deck_colors s1 = Some (color_id_loop lb [])"
    by (auto simp: initialize_def load_deck_def get_color_id_def reset_def split: sum.splits)
  from load_entries_keys[OF le] assms(2) have "fst ` set lb \<subseteq> set land_types" by simp
  with land_types_symbols have sym: "\<forall>entry\<in>set lb. set (fst entry) \<subseteq> set ''WUBRGC''"
    by blast
  from color_id_loop_set[OF sym, of "[]"]
  have d: "distinct (color_id_loop lb [])"
    and u: "set (color_id_loop lb []) = contributing_colors lb" by simp_all
  from u contributing_colors_subset[OF sym]
  have "set (color_id_loop lb []) \<subseteq> set ''WUBRG''" by simp
  then have "card (set (color_id_loop lb [])) \<le> card (set ''WUBRG'')"
    by (intro card_mono) simp_all
  with d have "length (color_id_loop lb []) \<le> 5" by (simp add: distinct_card)
  with dc d u lb show ?thesis by simp
qed

theorem color_identity_union_witness:
  "initialize (deck_of [(''W'', 2), (''UB'', 1), (''WUBRG'', 3), (''C'', 1)]) init =
     Inr (init\<lparr>deck_colors := Some ''WUB'',
               land_base :=
                 zip land_types (deck_of [(''W'', 2), (''UB'', 1), (''WUBRG'', 3), (''C'', 1)]),
               draw_pile := [''W'', ''W'', ''UB'', ''WUBRG'', ''WUBRG'', ''WUBRG'', ''C'']\<rparr>) \<and>
   fst ` set (land_base init) \<subseteq> set land_types \<and>
   distinct ''WUB'' \<and> length ''WUB'' \<le> 5 \<and>
   set ''WUB'' =
     contributing_colors
       (zip land_types (deck_of [(''W'', 2), (''UB'', 1), (''WUBRG'', 3), (''C'', 1)]))"
proof -
  let ?s1 = "init\<lparr>deck_colors := Some ''WUB'',
               land_base :=
                 zip land_types (deck_of [(''W'', 2), (''UB'', 1), (''WUBRG'', 3), (''C'', 1)]),
               draw_pile := [''W'', ''W'', ''UB'', ''WUBRG'', ''WUBRG'', ''WUBRG'', ''C'']\<rparr>"
  have i: "initialize (deck_of [(''W'', 2), (''UB'', 1), (''WUBRG'', 3), (''C'', 1)]) init =
      Inr ?s1"
    by code_simp
  have k: "fst ` set (land_base init) \<subseteq> set land_types" by (simp add: init_def)
  from color_identity_union[OF i k] i k show ?thesis by simp
qed

section \<open>The feasibility check\<close>

text \<open>
  C2. The docstring of \<^verbatim>\<open>run_simulation\<close> counts a hand with too few lands among the
  impossible trials, and so does the claim, but \<^verbatim>\<open>check_availability\<close> returns \<^verbatim>\<open>False\<close> for
  such a hand without touching \<^verbatim>\<open>impossible\<close>. With the colours W, U and B required, the
  two-land hand W, U leaves the counter at \<open>0\<close>, while the three-land hand W, W, W, which
  lacks a colour, raises it to \<open>1\<close>. A whole run of two trials with one plains, one island
  and one swamp and two lands per hand ends with \<^verbatim>\<open>impossible = 0\<close> and reports \<open>0\<close> and \<open>0\<close>.
\<close>

theorem too_few_lands_not_counted:
  "check_availability [''W'', ''U''] (init\<lparr>deck_colors := Some ''WUB''\<rparr>) =
     Inr (False, init\<lparr>deck_colors := Some ''WUB''\<rparr>) \<and>
   check_availability [''W'', ''W'', ''W''] (init\<lparr>deck_colors := Some ''WUB''\<rparr>) =
     Inr (False, init\<lparr>deck_colors := Some ''WUB'', impossible := 1\<rparr>) \<and>
   map_sum id (\<lambda>(s, g, average_tries, percentage).
       (deck_colors s, successful s, impossible s, total_tries s, average_tries, percentage))
     (run_simulation (deck_of [(''W'', 1), (''U'', 1), (''B'', 1)]) 2
        (init\<lparr>n_of_simulations := 2\<rparr>) (\<lambda>_. 0)) =
     Inr (Some ''WUB'', 0, 0, 0, 0, 0)"
  by code_simp

section \<open>The tap search\<close>

lemma choice_nonempty:
  "seq \<noteq> [] \<Longrightarrow> choice seq g = Inr (seq ! (g 0 mod length seq), \<lambda>i. g (Suc i))"
  by (simp add: choice_def randbelow_def)

lemma choice_empty: "choice [] g = Inl IndexError"
  by (simp add: choice_def)

lemma choice_member: "choice seq g = Inr (x, g') \<Longrightarrow> x \<in> set seq"
  by (auto simp: choice_def randbelow_def split: if_splits)

lemma tap_lands_available:
  assumes "tap_lands dc draws available g = Inr (av, g')" and "distinct available"
  shows "distinct av \<and> set available \<subseteq> set av \<and>
         set av \<subseteq> set available \<union> set dc \<union> \<Union> (set ` {d \<in> set draws. length d \<noteq> 5})"
  using assms
proof (induction draws arbitrary: available g)
  case Nil
  then show ?case by simp
next
  case (Cons draw draws)
  let ?pick = "if length draw = 5 then choice dc g else choice draw g"
  from Cons.prems(1) obtain tapped g1 where p: "?pick = Inr (tapped, g1)"
    by (cases ?pick) auto
  let ?available = "if tapped \<notin> set available then available @ [tapped] else available"
  from Cons.prems(1) p have rest: "tap_lands dc draws ?available g1 = Inr (av, g')"
    by simp
  from Cons.prems(2) have d: "distinct ?available" by simp
  from p have t: "tapped \<in> set dc \<union> (if length draw = 5 then {} else set draw)"
    by (auto dest: choice_member split: if_splits)
  from Cons.IH[OF rest d] t show ?case by (auto split: if_splits)
qed

lemma length_test_is_set_test:
  assumes "tap_lands dc draws [] g = Inr (av, g')" and "distinct dc"
    and "\<forall>d\<in>set draws. length d = 5 \<or> set d \<subseteq> set dc"
  shows "length av = length dc \<longleftrightarrow> set av = set dc"
proof -
  from tap_lands_available[OF assms(1)] have d: "distinct av"
    and s: "set av \<subseteq> set dc \<union> \<Union> (set ` {d \<in> set draws. length d \<noteq> 5})"
    by simp_all
  from assms(3) have "\<Union> (set ` {d \<in> set draws. length d \<noteq> 5}) \<subseteq> set dc" by auto
  with s have sub: "set av \<subseteq> set dc" by auto
  show ?thesis
  proof
    assume "length av = length dc"
    with d assms(2) have "card (set dc) \<le> card (set av)" by (simp add: distinct_card)
    with sub show "set av = set dc" by (intro card_seteq) simp_all
  next
    assume "set av = set dc"
    then have "card (set av) = card (set dc)" by simp
    with d assms(2) show "length av = length dc" by (simp add: distinct_card)
  qed
qed

lemma tap_attempts_refines_spec:
  assumes "distinct dc" and "\<forall>d\<in>set draws. length d = 5 \<or> set d \<subseteq> set dc"
  shows "tap_attempts k n dc draws s g = spec_tap_attempts k n dc draws s g"
proof (induction k arbitrary: n g)
  case 0
  show ?case by simp
next
  case (Suc k)
  show ?case
  proof (cases "tap_lands dc draws [] g")
    case (Inl e)
    then show ?thesis by simp
  next
    case (Inr r)
    obtain av g' where r: "r = (av, g')" by (cases r)
    from Inr r have t: "tap_lands dc draws [] g = Inr (av, g')" by simp
    from length_test_is_set_test[OF t assms] Suc.IH[of "Suc n" g'] t show ?thesis by simp
  qed
qed

text \<open>
  C1. The docstring of \<^verbatim>\<open>analyze_tap_options\<close> and the claim call an attempt successful
  when all colours of the deck were produced. The code compares only the number of distinct
  tapped colours with the number of required colours, and a land with the label C is tapped
  for the symbol C. With W and U required and the hand WU, C, the first attempt can tap W
  and C: U is missing, yet the attempt counts as a success with \<open>0\<close> tries, where the search
  of the specification finds no success in \<open>50\<close> attempts and adds \<open>50\<close>. The same happens in
  a whole run with one WU land and one C land in the deck. On hands without C lands the two
  searches agree (\<open>tap_attempts_refines_spec\<close>), and the number of attempts and the amounts
  added are as the claim says (\<open>tap_attempts_result\<close>).
\<close>

theorem success_without_all_colors:
  "map_sum id fst (tap_lands ''WU'' [''WU'', ''C''] [] (\<lambda>_. 0)) = Inr ''WC'' \<and>
   set ''WC'' \<noteq> set ''WU'' \<and>
   map_sum id (\<lambda>(s, g). (successful s, total_tries s))
     (analyze_tap_options [''WU'', ''C''] (init\<lparr>deck_colors := Some ''WU''\<rparr>) (\<lambda>_. 0)) =
     Inr (1, 0) \<and>
   map_sum id (\<lambda>(s, g). (successful s, total_tries s))
     (spec_tap_attempts 50 0 ''WU'' [''WU'', ''C''] (init\<lparr>deck_colors := Some ''WU''\<rparr>)
        (\<lambda>_. 0)) =
     Inr (0, 50) \<and>
   map_sum id (\<lambda>(s, g, average_tries, percentage).
       (deck_colors s, draw_pile s, successful s, total_tries s, average_tries, percentage))
     (run_simulation (deck_of [(''WU'', 1), (''C'', 1)]) 2
        (init\<lparr>n_of_simulations := 1\<rparr>) (\<lambda>_. 0)) =
     Inr (Some ''WU'', [''WU'', ''C''], 1, 0, 0, 100)"
  by code_simp

text \<open>
  C4, as the specification states it, fails. A land with the label C has one character, so it
  is tapped with \<^verbatim>\<open>choice(['C'])\<close> and yields the symbol C, which is not a required colour:
  with W required, the hand C taps for C, and the feasibility check already counts this
  hand as impossible, so it cannot succeed.
\<close>

theorem colorless_land_counterexample:
  "map_sum id fst (tap_lands ''W'' [''C''] [] (\<lambda>_. 0)) = Inr ''C'' \<and>
   CHR ''C'' \<notin> set ''W'' \<and>
   check_availability [''C''] (init\<lparr>deck_colors := Some ''W''\<rparr>) =
     Inr (False, init\<lparr>deck_colors := Some ''W'', impossible := 1\<rparr>)"
  by code_simp

text \<open>
  C4, amended. In every tap attempt a land with the label C is tapped for the symbol C
  itself, whatever the random numbers are, and C is never a member of the colour identity
  that \<^verbatim>\<open>get_color_id\<close> derives. The label that is tapped for one of the required colours is
  the five-colour label WUBRG: when the colour identity is not empty, the colour tapped
  from it is a member of the colour identity.
\<close>

theorem colorless_land_taps_C:
  "tap_lands dc (''C'' # draws) available g =
     tap_lands dc draws
       (if CHR ''C'' \<notin> set available then available @ [CHR ''C''] else available)
       (\<lambda>i. g (Suc i)) \<and>
   CHR ''C'' \<notin> set (color_id_loop lb []) \<and>
   (dc \<noteq> [] \<longrightarrow>
      (\<exists>c\<in>set dc.
         tap_lands dc (''WUBRG'' # draws) available g =
           tap_lands dc draws (if c \<notin> set available then available @ [c] else available)
             (\<lambda>i. g (Suc i))))"
proof (intro conjI impI)
  show "tap_lands dc (''C'' # draws) available g =
     tap_lands dc draws
       (if CHR ''C'' \<notin> set available then available @ [CHR ''C''] else available)
       (\<lambda>i. g (Suc i))"
    by (simp add: choice_def randbelow_def)
  show "CHR ''C'' \<notin> set (color_id_loop lb [])"
    by (rule color_id_loop_no_C) simp
next
  assume ne: "dc \<noteq> []"
  let ?c = "dc ! (g 0 mod length dc)"
  from ne have "?c \<in> set dc" by simp
  moreover have "tap_lands dc (''WUBRG'' # draws) available g =
           tap_lands dc draws (if ?c \<notin> set available then available @ [?c] else available)
             (\<lambda>i. g (Suc i))"
    by (simp add: choice_nonempty[OF ne])
  ultimately show "\<exists>c\<in>set dc.
         tap_lands dc (''WUBRG'' # draws) available g =
           tap_lands dc draws (if c \<notin> set available then available @ [c] else available)
             (\<lambda>i. g (Suc i))" ..
qed

theorem colorless_land_taps_C_witness:
  "tap_lands ''WU'' [''C''] [] (\<lambda>_. 1) = Inr (''C'', \<lambda>_. 1) \<and>
   CHR ''C'' \<notin> set (color_id_loop (zip land_types (deck_of [(''WU'', 1), (''C'', 1)])) []) \<and>
   ''WU'' \<noteq> [] \<and>
   (\<exists>c. c \<in> set ''WU'' \<and> tap_lands ''WU'' [''WUBRG''] [] (\<lambda>_. 1) = Inr ([c], \<lambda>_. 1))"
  using colorless_land_taps_C[of "''WU''" "[]" "[]" "\<lambda>_. 1"
      "zip land_types (deck_of [(''WU'', 1), (''C'', 1)])"]
  by auto

lemma tap_lands_no_colors_fault:
  "\<exists>d\<in>set draws. length d = 5 \<Longrightarrow> tap_lands [] draws available g = Inl IndexError"
proof (induction draws arbitrary: available g)
  case Nil
  then show ?case by simp
next
  case (Cons draw draws)
  show ?case
  proof (cases "length draw = 5")
    case True
    then show ?thesis by (simp add: choice_empty)
  next
    case False
    with Cons.prems have rest: "\<exists>d\<in>set draws. length d = 5" by auto
    show ?thesis
    proof (cases "draw = []")
      case True
      then show ?thesis by (simp add: choice_empty)
    next
      case ne: False
      from False Cons.IH[OF rest] show ?thesis
        by (simp add: choice_nonempty[OF ne])
    qed
  qed
qed

lemma color_id_loop_only_wildcards:
  "\<forall>(land, number)\<in>set lb. land \<noteq> ''WUBRG'' \<longrightarrow> number = 0 \<Longrightarrow> color_id_loop lb dc = dc"
  by (induction lb) auto

lemma pile_only_wildcards:
  "\<forall>(land, number)\<in>set lb. land \<noteq> ''WUBRG'' \<longrightarrow> number = 0 \<Longrightarrow>
     set (concat (map (\<lambda>(key, value). replicate (nat value) key) lb)) \<subseteq> {''WUBRG''}"
  by (induction lb) auto

lemma initialize_Inr:
  assumes "initialize parts s0 = Inr s"
  shows "deck_colors s = Some (color_id_loop (land_base s) []) \<and>
         draw_pile s = draw_pile s0 @
           concat (map (\<lambda>(key, value). replicate (nat value) key) (land_base s)) \<and>
         max_tap_tries s = max_tap_tries s0"
proof (cases "load_entries land_types parts (land_base s0)")
  case (Inl e)
  with assms show ?thesis by (simp add: initialize_def load_deck_def reset_def)
next
  case (Inr lb)
  from initialize_from_entries[OF Inr] assms show ?thesis by auto
qed

text \<open>
  With an empty colour identity every hand passes the feasibility check and leaves the
  counters as they are. If at least one attempt is allowed, a hand with a five-letter label
  makes the tap search end with \<^verbatim>\<open>IndexError\<close>, raised by \<^verbatim>\<open>choice\<close> on the empty colour
  identity, and the empty hand succeeds on attempt \<open>0\<close>.
\<close>

lemma no_colors_tap_search:
  assumes "deck_colors s = Some []"
  shows "check_availability draws s = Inr (True, s) \<and>
         (0 < max_tap_tries s \<and> (\<exists>d\<in>set draws. length d = 5) \<longrightarrow>
            analyze_tap_options draws s g = Inl IndexError) \<and>
         (0 < max_tap_tries s \<longrightarrow>
            analyze_tap_options [] s g =
              Inr (s\<lparr>successful := successful s + 1, total_tries := total_tries s + 0\<rparr>, g))"
proof (intro conjI impI)
  show "check_availability draws s = Inr (True, s)"
    using assms by (simp add: check_availability_def)
next
  assume a: "0 < max_tap_tries s \<and> (\<exists>d\<in>set draws. length d = 5)"
  then obtain k where k: "nat (max_tap_tries s) = Suc k"
    by (cases "nat (max_tap_tries s)") auto
  from a have "tap_lands [] draws [] g = Inl IndexError"
    by (simp add: tap_lands_no_colors_fault)
  with assms k show "analyze_tap_options draws s g = Inl IndexError"
    by (simp add: analyze_tap_options_def)
next
  assume "0 < max_tap_tries s"
  then obtain k where k: "nat (max_tap_tries s) = Suc k"
    by (cases "nat (max_tap_tries s)") auto
  with assms show "analyze_tap_options [] s g =
      Inr (s\<lparr>successful := successful s + 1, total_tries := total_tries s + 0\<rparr>, g)"
    by (simp add: analyze_tap_options_def)
qed

text \<open>
  C10. Take a land base in which no label other than WUBRG has a nonzero count, loaded
  by \<^verbatim>\<open>initialize\<close> into an instance whose draw pile was empty, and an attempt limit of at
  least one (the program has 50). The colour identity is empty. Every hand drawn from the
  pile passes the feasibility check, which leaves the counters as they are. If the hand
  holds a WUBRG land, the tap search ends with \<^verbatim>\<open>IndexError\<close>: \<^verbatim>\<open>choice\<close> is called on the
  empty colour identity. If it holds none, the tap search succeeds on attempt \<open>0\<close>:
  \<^verbatim>\<open>successful\<close> grows by one and \<^verbatim>\<open>total_tries\<close> by \<open>0\<close>. So the tap search is not total in
  this case. The pile holds WUBRG lands only, so a hand without one is the empty hand.
\<close>

theorem empty_color_identity:
  assumes "initialize parts s0 = Inr s"
    and "draw_pile s0 = []"
    and "\<forall>(land, number)\<in>set (land_base s). land \<noteq> ''WUBRG'' \<longrightarrow> number = 0"
    and "set draws \<subseteq> set (draw_pile s)"
    and "0 < max_tap_tries s"
  shows "deck_colors s = Some [] \<and>
         check_availability draws s = Inr (True, s) \<and>
         (''WUBRG'' \<in> set draws \<longrightarrow> analyze_tap_options draws s g = Inl IndexError) \<and>
         (''WUBRG'' \<notin> set draws \<longrightarrow>
            analyze_tap_options draws s g =
              Inr (s\<lparr>successful := successful s + 1, total_tries := total_tries s + 0\<rparr>, g))"
proof -
  note i = initialize_Inr[OF assms(1)]
  from i color_id_loop_only_wildcards[OF assms(3), of "[]"]
  have dc: "deck_colors s = Some []" by simp
  from i assms(2) pile_only_wildcards[OF assms(3)]
  have "set (draw_pile s) \<subseteq> {''WUBRG''}" by simp
  with assms(4) have hand: "set draws \<subseteq> {''WUBRG''}" by simp
  note n = no_colors_tap_search[OF dc]
  from n have c: "check_availability draws s = Inr (True, s)" by simp
  have f: "analyze_tap_options draws s g = Inl IndexError" if "''WUBRG'' \<in> set draws"
  proof -
    from that have "\<exists>d\<in>set draws. length d = 5" by (rule bexI[rotated]) simp
    with n[of draws g] assms(5) show ?thesis by simp
  qed
  have e: "analyze_tap_options draws s g =
      Inr (s\<lparr>successful := successful s + 1, total_tries := total_tries s + 0\<rparr>, g)"
    if "''WUBRG'' \<notin> set draws"
  proof -
    have "draws = []"
    proof (cases draws)
      case Nil
      then show ?thesis .
    next
      case (Cons d ds)
      with hand have "d = ''WUBRG''" by simp
      with that Cons show ?thesis by simp
    qed
    with n[of draws g] assms(5) show ?thesis by simp
  qed
  from dc c f e show ?thesis by simp
qed

theorem empty_color_identity_witness:
  "initialize (deck_of [(''WUBRG'', 2)]) init =
     Inr (init\<lparr>deck_colors := Some [], land_base := zip land_types (deck_of [(''WUBRG'', 2)]),
               draw_pile := [''WUBRG'', ''WUBRG'']\<rparr>) \<and>
   draw_pile init = [] \<and>
   set [''WUBRG''] \<subseteq> set (draw_pile
     (init\<lparr>deck_colors := Some [], land_base := zip land_types (deck_of [(''WUBRG'', 2)]),
           draw_pile := [''WUBRG'', ''WUBRG'']\<rparr>)) \<and>
   0 < max_tap_tries
     (init\<lparr>deck_colors := Some [], land_base := zip land_types (deck_of [(''WUBRG'', 2)]),
           draw_pile := [''WUBRG'', ''WUBRG'']\<rparr>) \<and>
   check_availability [''WUBRG'']
     (init\<lparr>deck_colors := Some [], land_base := zip land_types (deck_of [(''WUBRG'', 2)]),
           draw_pile := [''WUBRG'', ''WUBRG'']\<rparr>) =
     Inr (True, init\<lparr>deck_colors := Some [],
                     land_base := zip land_types (deck_of [(''WUBRG'', 2)]),
                     draw_pile := [''WUBRG'', ''WUBRG'']\<rparr>) \<and>
   analyze_tap_options [''WUBRG'']
     (init\<lparr>deck_colors := Some [], land_base := zip land_types (deck_of [(''WUBRG'', 2)]),
           draw_pile := [''WUBRG'', ''WUBRG'']\<rparr>) (\<lambda>_. 0) = Inl IndexError \<and>
   analyze_tap_options []
     (init\<lparr>deck_colors := Some [], land_base := zip land_types (deck_of [(''WUBRG'', 2)]),
           draw_pile := [''WUBRG'', ''WUBRG'']\<rparr>) (\<lambda>_. 0) =
     Inr (init\<lparr>deck_colors := Some [], land_base := zip land_types (deck_of [(''WUBRG'', 2)]),
               draw_pile := [''WUBRG'', ''WUBRG''], successful := 1\<rparr>, \<lambda>_. 0)"
proof -
  let ?s = "init\<lparr>deck_colors := Some [], land_base := zip land_types (deck_of [(''WUBRG'', 2)]),
           draw_pile := [''WUBRG'', ''WUBRG'']\<rparr>"
  have i: "initialize (deck_of [(''WUBRG'', 2)]) init = Inr ?s" by code_simp
  have p: "draw_pile init = []" by (simp add: init_def)
  have b: "\<forall>(land, number)\<in>set (land_base ?s). land \<noteq> ''WUBRG'' \<longrightarrow> number = 0"
    by code_simp
  have h1: "set [''WUBRG''] \<subseteq> set (draw_pile ?s)" by simp
  have h0: "set [] \<subseteq> set (draw_pile ?s)" by simp
  have m: "0 < max_tap_tries ?s" by (simp add: init_def)
  from empty_color_identity[OF i p b h1 m, of "\<lambda>_. 0"]
  have c: "check_availability [''WUBRG''] ?s = Inr (True, ?s)"
    and f: "analyze_tap_options [''WUBRG''] ?s (\<lambda>_. 0) = Inl IndexError"
    by simp_all
  from empty_color_identity[OF i p b h0 m, of "\<lambda>_. 0"]
  have e: "analyze_tap_options [] ?s (\<lambda>_. 0) =
      Inr (init\<lparr>deck_colors := Some [], land_base := zip land_types (deck_of [(''WUBRG'', 2)]),
               draw_pile := [''WUBRG'', ''WUBRG''], successful := 1\<rparr>, \<lambda>_. 0)"
    by (simp add: init_def)
  from i p h1 m c f e show ?thesis by (intro conjI)
qed

section \<open>Drawing a hand\<close>

lemma shuffle_from_mset:
  "i < length x \<Longrightarrow> mset (fst (shuffle_from i x g)) = mset x"
proof (induction i arbitrary: x g)
  case 0
  then show ?case by simp
next
  case (Suc i)
  obtain j g' where r: "randbelow (Suc i + 1) g = (j, g')" by (cases "randbelow (Suc i + 1) g")
  then have "j = g 0 mod (Suc i + 1)" by (simp add: randbelow_def)
  then have "j < Suc i + 1" by simp
  with Suc.prems have j: "j < length x" by simp
  let ?x' = "x[Suc i := x ! j, j := x ! Suc i]"
  have "mset ?x' = mset x" using j Suc.prems by (simp add: mset_swap)
  moreover have "i < length ?x'" using Suc.prems by simp
  from Suc.IH[OF this] have "mset (fst (shuffle_from i ?x' g')) = mset ?x'" .
  ultimately show ?case using r by simp
qed

lemma shuffle_mset: "mset (fst (shuffle x g)) = mset x"
proof (cases x)
  case Nil
  then show ?thesis by (simp add: shuffle_def)
next
  case (Cons a as)
  then have "length x - 1 < length x" by simp
  then show ?thesis unfolding shuffle_def by (rule shuffle_from_mset)
qed

lemma shuffle_length: "length (fst (shuffle x g)) = length x"
  using shuffle_mset[of x g] by (metis size_mset)

lemma slice_to_all: "int (length xs) \<le> n \<Longrightarrow> slice_to xs n = xs"
  by (simp add: slice_to_def)

lemma trial_oversized:
  assumes "int (length (draw_pile s)) \<le> n_of_lands"
  shows "trial n_of_lands s g = trial (int (length (draw_pile s))) s g"
proof -
  obtain current_deck g1 where sh: "shuffle (draw_pile s) g = (current_deck, g1)"
    by (cases "shuffle (draw_pile s) g")
  with shuffle_length[of "draw_pile s" g] have len: "length current_deck = length (draw_pile s)"
    by simp
  with assms have a: "slice_to current_deck n_of_lands = current_deck"
    by (simp add: slice_to_all)
  from len have b: "slice_to current_deck (int (length (draw_pile s))) = current_deck"
    by (simp add: slice_to_all)
  show ?thesis unfolding trial_def sh prod.case a b ..
qed

lemma trials_oversized:
  "int (length (draw_pile s)) \<le> n_of_lands \<Longrightarrow>
     trials j n_of_lands s g = trials j (int (length (draw_pile s))) s g"
proof (induction j arbitrary: s g)
  case 0
  then show ?case by simp
next
  case (Suc j)
  note eq = trial_oversized[OF Suc.prems, of g]
  show ?case
  proof (cases "trial n_of_lands s g")
    case (Inl e)
    moreover from Inl eq have "trial (int (length (draw_pile s))) s g = Inl e" by simp
    ultimately show ?thesis by simp
  next
    case (Inr r)
    obtain s' g' where r: "r = (s', g')" by (cases r)
    from Inr r have t1: "trial n_of_lands s g = Inr (s', g')" by simp
    with eq have t2: "trial (int (length (draw_pile s))) s g = Inr (s', g')" by simp
    from trial_same_setup[OF t1] have dp: "draw_pile s' = draw_pile s"
      by (simp add: same_setup_def)
    with Suc.prems have "int (length (draw_pile s')) \<le> n_of_lands" by simp
    from Suc.IH[OF this] dp
    have "trials j n_of_lands s' g' = trials j (int (length (draw_pile s))) s' g'" by simp
    with t1 t2 show ?thesis by simp
  qed
qed

text \<open>
  C8, as the specification states it, fails. With a single plains in the deck and a hand
  size of three, \<^verbatim>\<open>run_simulation\<close> rejects nothing: both trials run, both succeed, and the
  run reports an average of \<open>0\<close> attempts and \<open>100\<close> percent.
\<close>

theorem oversized_hand_counterexample:
  "map_sum id (\<lambda>(s, g, average_tries, percentage).
       (draw_pile s, successful s, average_tries, percentage))
     (run_simulation (deck_of [(''W'', 1)]) 3 (init\<lparr>n_of_simulations := 2\<rparr>) (\<lambda>_. 0)) =
   Inr ([''W''], 2, 0, 100)"
  by code_simp

text \<open>
  C8, amended. A hand size larger than the draw pile is not rejected. The slice
  \<^verbatim>\<open>current_deck[:n_of_lands]\<close> is then the whole shuffled pile, so every trial draws all
  lands of the pile, and the run is the run with the hand size equal to the size of the pile.
\<close>

theorem oversized_hand_draws_whole_pile:
  assumes "initialize parts s = Inr s1"
    and "int (length (draw_pile s1)) < n_of_lands"
  shows "run_simulation parts n_of_lands s g =
           run_simulation parts (int (length (draw_pile s1))) s g \<and>
         mset (slice_to (fst (shuffle (draw_pile s1) g')) n_of_lands) = mset (draw_pile s1)"
proof -
  from assms(2) have le: "int (length (draw_pile s1)) \<le> n_of_lands" by simp
  have "run_simulation parts n_of_lands s g =
           run_simulation parts (int (length (draw_pile s1))) s g"
    unfolding run_simulation_def assms(1) sum.case trials_oversized[OF le] ..
  moreover from le have "slice_to (fst (shuffle (draw_pile s1) g')) n_of_lands =
      fst (shuffle (draw_pile s1) g')"
    by (simp add: slice_to_all shuffle_length)
  ultimately show ?thesis by (simp add: shuffle_mset)
qed

theorem oversized_hand_draws_whole_pile_witness:
  "initialize (deck_of [(''W'', 1), (''U'', 1)]) (init\<lparr>n_of_simulations := 1\<rparr>) =
     Inr (init\<lparr>n_of_simulations := 1, deck_colors := Some ''WU'',
               land_base := zip land_types (deck_of [(''W'', 1), (''U'', 1)]),
               draw_pile := [''W'', ''U'']\<rparr>) \<and>
   int (length [''W'', ''U'']) < 5 \<and>
   run_simulation (deck_of [(''W'', 1), (''U'', 1)]) 5 (init\<lparr>n_of_simulations := 1\<rparr>) (\<lambda>_. 0) =
     run_simulation (deck_of [(''W'', 1), (''U'', 1)]) 2 (init\<lparr>n_of_simulations := 1\<rparr>) (\<lambda>_. 0) \<and>
   mset (slice_to (fst (shuffle [''W'', ''U''] (\<lambda>_. 0))) 5) = mset [''W'', ''U'']"
proof -
  let ?s1 = "init\<lparr>n_of_simulations := 1, deck_colors := Some ''WU'',
               land_base := zip land_types (deck_of [(''W'', 1), (''U'', 1)]),
               draw_pile := [''W'', ''U'']\<rparr>"
  have i: "initialize (deck_of [(''W'', 1), (''U'', 1)]) (init\<lparr>n_of_simulations := 1\<rparr>) = Inr ?s1"
    by code_simp
  have l: "int (length (draw_pile ?s1)) < 5" by simp
  from oversized_hand_draws_whole_pile[OF i l, of "\<lambda>_. 0" "\<lambda>_. 0"] i show ?thesis by simp
qed

section \<open>Floating point\<close>

lemma round_half_even_lower: "of_int i \<le> x \<Longrightarrow> i \<le> round_half_even x"
proof -
  assume "of_int i \<le> x"
  then have "i \<le> \<lfloor>x\<rfloor>" by (simp add: le_floor_iff)
  moreover have "\<lfloor>x\<rfloor> \<le> round_half_even x"
    by (simp add: round_half_even_def Let_def)
  ultimately show ?thesis by simp
qed

lemma round_half_even_upper: "x \<le> of_int j \<Longrightarrow> round_half_even x \<le> j"
proof (cases "x = of_int \<lfloor>x\<rfloor>")
  case True
  assume "x \<le> of_int j"
  with True have "\<lfloor>x\<rfloor> \<le> j" by (metis of_int_le_iff)
  moreover from True have "round_half_even x = \<lfloor>x\<rfloor>"
    by (simp add: round_half_even_def Let_def)
  ultimately show ?thesis by simp
next
  case False
  assume xj: "x \<le> of_int j"
  have "of_int \<lfloor>x\<rfloor> \<le> x" by simp
  with False have "of_int \<lfloor>x\<rfloor> < x" by (auto simp: less_le)
  with xj have "(of_int \<lfloor>x\<rfloor> :: rat) < of_int j" by simp
  then have "\<lfloor>x\<rfloor> < j" by simp
  moreover have "round_half_even x \<le> \<lfloor>x\<rfloor> + 1"
    by (simp add: round_half_even_def Let_def)
  ultimately show ?thesis by simp
qed

lemma round_half_even_of_int: "round_half_even (of_int i) = i"
  using round_half_even_lower[of i "of_int i"] round_half_even_upper[of "of_int i" i] by simp

lemma round_half_even_close: "\<bar>of_int (round_half_even x) - x\<bar> \<le> 1 / 2"
proof -
  have "of_int \<lfloor>x\<rfloor> \<le> x" "x < of_int \<lfloor>x\<rfloor> + 1" by linarith+
  then show ?thesis
    by (auto simp: round_half_even_def Let_def abs_le_iff)
qed

lemma round_half_even_below_half:
  assumes "x < of_int j + 1 / 2"
  shows "round_half_even x \<le> j"
proof -
  from round_half_even_close[of x] have "of_int (round_half_even x) - x \<le> 1 / 2"
    by linarith
  with assms have "(of_int (round_half_even x) :: rat) < of_int j + 1" by linarith
  then have "(of_int (round_half_even x) :: rat) < of_int (j + 1)" by simp
  then have "round_half_even x < j + 1" by (simp only: of_int_less_iff)
  then show ?thesis by simp
qed

lemma two_powi_less_imp: "(2 :: rat) powi a < 2 powi b \<Longrightarrow> a < b"
proof (rule ccontr)
  assume l: "(2 :: rat) powi a < 2 powi b" and "\<not> a < b"
  then have "b \<le> a" by simp
  then have "(2 :: rat) powi b \<le> 2 powi a" by (intro power_int_increasing) simp_all
  with l show False by simp
qed

lemma two_powi_mono: "a \<le> b \<Longrightarrow> (2 :: rat) powi a \<le> 2 powi b"
  by (intro power_int_increasing) simp_all

lemma round_half_even_mono:
  assumes "x \<le> y"
  shows "round_half_even x \<le> round_half_even y"
proof (cases "\<lfloor>x\<rfloor> = \<lfloor>y\<rfloor>")
  case True
  with assms show ?thesis by (auto simp: round_half_even_def Let_def)
next
  case False
  from assms have "\<lfloor>x\<rfloor> \<le> \<lfloor>y\<rfloor>" by (rule floor_mono)
  with False have "\<lfloor>x\<rfloor> + 1 \<le> \<lfloor>y\<rfloor>" by simp
  moreover have "round_half_even x \<le> \<lfloor>x\<rfloor> + 1" by (simp add: round_half_even_def Let_def)
  moreover have "\<lfloor>y\<rfloor> \<le> round_half_even y" by (simp add: round_half_even_def Let_def)
  ultimately show ?thesis by simp
qed

lemma ilog2_bounds:
  assumes "0 < x"
  shows "2 powi (ilog2 x) \<le> x \<and> x < 2 powi (ilog2 x + 1)"
proof -
  obtain p q where pq: "quotient_of x = (p, q)" by (cases "quotient_of x")
  then have x: "x = of_int p / of_int q" and q: "0 < q"
    by (simp_all add: quotient_of_div quotient_of_denom_pos)
  from assms x q have p: "0 < p" by (simp add: zero_less_divide_iff)
  define d where "d = bitlen p - bitlen q"
  from bitlen_bounds[OF p] have p1: "2 ^ nat (bitlen p - 1) \<le> p" and p2: "p < 2 ^ nat (bitlen p)"
    by simp_all
  from bitlen_bounds[OF q] have q1: "2 ^ nat (bitlen q - 1) \<le> q" and q2: "q < 2 ^ nat (bitlen q)"
    by simp_all
  from p have bp: "1 \<le> bitlen p" by (simp add: bitlen_alt_def)
  from q have bq: "1 \<le> bitlen q" by (simp add: bitlen_alt_def)
  have P1: "(2 :: rat) powi (bitlen p - 1) \<le> of_int p"
  proof -
    from p1 have "(of_int (2 ^ nat (bitlen p - 1)) :: rat) \<le> of_int p" by (simp only: of_int_le_iff)
    with bp show ?thesis by (simp add: power_int_def)
  qed
  have P2: "(of_int p :: rat) < 2 powi (bitlen p)"
  proof -
    from p2 have "(of_int p :: rat) < of_int (2 ^ nat (bitlen p))" by (simp only: of_int_less_iff)
    with bp show ?thesis by (simp add: power_int_def)
  qed
  have Q1: "(2 :: rat) powi (bitlen q - 1) \<le> of_int q"
  proof -
    from q1 have "(of_int (2 ^ nat (bitlen q - 1)) :: rat) \<le> of_int q" by (simp only: of_int_le_iff)
    with bq show ?thesis by (simp add: power_int_def)
  qed
  have Q2: "(of_int q :: rat) < 2 powi (bitlen q)"
  proof -
    from q2 have "(of_int q :: rat) < of_int (2 ^ nat (bitlen q))" by (simp only: of_int_less_iff)
    with bq show ?thesis by (simp add: power_int_def)
  qed
  have qpos: "(0 :: rat) < of_int q" using q by simp
  have lower: "(2 :: rat) powi (d - 1) \<le> x"
  proof -
    have "(2 :: rat) powi (d - 1) * of_int q \<le> 2 powi (d - 1) * 2 powi (bitlen q)"
      using Q2 by (intro mult_left_mono) simp_all
    also have "\<dots> = 2 powi (bitlen p - 1)"
      by (simp add: d_def power_int_add[symmetric])
    also have "\<dots> \<le> of_int p" by (rule P1)
    finally show ?thesis using qpos by (simp add: x pos_le_divide_eq)
  qed
  have upper: "x < 2 powi (d + 1)"
  proof -
    have "(of_int p :: rat) < 2 powi (bitlen p)" by (rule P2)
    also have "\<dots> = 2 powi (d + 1) * 2 powi (bitlen q - 1)"
      by (simp add: d_def power_int_add[symmetric])
    also have "\<dots> \<le> 2 powi (d + 1) * of_int q"
      using Q1 by (intro mult_left_mono) simp_all
    finally show ?thesis using qpos by (simp add: x pos_divide_less_eq)
  qed
  have il: "ilog2 x = (if 2 powi d \<le> x then d else d - 1)"
    by (simp add: ilog2_def pq d_def Let_def)
  show ?thesis
  proof (cases "2 powi d \<le> x")
    case True
    with il upper show ?thesis by simp
  next
    case False
    with il lower show ?thesis by simp
  qed
qed

lemma ilog2_unique:
  assumes "2 powi k \<le> x" and "x < 2 powi (k + 1)"
  shows "ilog2 x = k"
proof -
  have pos: "0 < x" using assms(1) by (rule less_le_trans[rotated]) simp
  note b = ilog2_bounds[OF pos]
  from b assms(2) have "(2 :: rat) powi (ilog2 x) < 2 powi (k + 1)" by simp
  then have "ilog2 x < k + 1" by (rule two_powi_less_imp)
  moreover from b assms(1) have "(2 :: rat) powi k < 2 powi (ilog2 x + 1)" by simp
  then have "k < ilog2 x + 1" by (rule two_powi_less_imp)
  ultimately show ?thesis by simp
qed

lemma ilog2_mono:
  assumes "0 < x" and "x \<le> y"
  shows "ilog2 x \<le> ilog2 y"
proof -
  from assms have "0 < y" by simp
  from ilog2_bounds[OF assms(1)] ilog2_bounds[OF this] assms(2)
  have "(2 :: rat) powi (ilog2 x) < 2 powi (ilog2 y + 1)" by simp
  then have "ilog2 x < ilog2 y + 1" by (rule two_powi_less_imp)
  then show ?thesis by simp
qed

lemma quantum_pos: "0 < quantum x"
  by (simp add: quantum_def)

lemma binary64_zero: "binary64 0 = 0"
  by (simp add: binary64_def)

lemma binary64_nonneg:
  assumes "0 \<le> x"
  shows "0 \<le> binary64 x"
proof (cases "x = 0")
  case True
  then show ?thesis by (simp add: binary64_def)
next
  case False
  from assms quantum_pos[of x] have "of_int 0 \<le> x / quantum x" by simp
  then have "0 \<le> round_half_even (x / quantum x)" by (rule round_half_even_lower)
  with False quantum_pos[of x] show ?thesis by (simp add: binary64_def)
qed

lemma grid_multiple:
  assumes "j \<le> k"
  shows "of_int m * (2 :: rat) powi k = of_int (m * 2 ^ nat (k - j)) * 2 powi j"
proof -
  have "(2 :: rat) powi (k - j + j) = 2 powi (k - j) * 2 powi j"
    by (rule power_int_add) simp
  then have "(2 :: rat) powi k = 2 powi (k - j) * 2 powi j" by simp
  moreover from assms have "(2 :: rat) powi (k - j) = of_int (2 ^ nat (k - j))"
    by (simp add: power_int_def)
  ultimately have "(2 :: rat) powi k = of_int (2 ^ nat (k - j)) * 2 powi j" by (simp only:)
  then have "of_int m * (2 :: rat) powi k = of_int m * (of_int (2 ^ nat (k - j)) * 2 powi j)"
    by (simp only:)
  also have "\<dots> = of_int (m * 2 ^ nat (k - j)) * 2 powi j"
    by (simp only: of_int_mult mult.assoc)
  finally show ?thesis .
qed

lemma binary64_upper_grid:
  assumes "0 < x" and "x \<le> of_int m * 2 powi k"
    and "max (ilog2 x) (- 1022) - 52 \<le> k"
  shows "binary64 x \<le> of_int m * 2 powi k"
proof -
  define j where "j = max (ilog2 x) (- 1022) - 52"
  from assms(1) have u: "quantum x = 2 powi j" by (simp add: quantum_def j_def)
  from assms(3) have "j \<le> k" by (simp add: j_def)
  from grid_multiple[OF this]
  have c: "of_int m * 2 powi k = of_int (m * 2 ^ nat (k - j)) * (2 :: rat) powi j" .
  from assms(1) u
  have b: "binary64 x = of_int (round_half_even (x / 2 powi j)) * 2 powi j"
    by (simp add: binary64_def)
  have up: "(0 :: rat) < 2 powi j" by simp
  from assms(2) have "x \<le> of_int (m * 2 ^ nat (k - j)) * 2 powi j" by (simp only: c)
  then have "x / 2 powi j \<le> of_int (m * 2 ^ nat (k - j))"
    using up by (simp only: pos_divide_le_eq)
  then have "round_half_even (x / 2 powi j) \<le> m * 2 ^ nat (k - j)"
    by (rule round_half_even_upper)
  then have "(of_int (round_half_even (x / 2 powi j)) :: rat) \<le> of_int (m * 2 ^ nat (k - j))"
    by (simp only: of_int_le_iff)
  then have "of_int (round_half_even (x / 2 powi j)) * 2 powi j
      \<le> of_int (m * 2 ^ nat (k - j)) * (2 :: rat) powi j"
    using up by (intro mult_right_mono) simp_all
  then show ?thesis by (simp only: b c)
qed

lemma binary64_lower_grid:
  assumes "0 < x" and "of_int m * 2 powi k \<le> x"
    and "max (ilog2 x) (- 1022) - 52 \<le> k"
  shows "of_int m * 2 powi k \<le> binary64 x"
proof -
  define j where "j = max (ilog2 x) (- 1022) - 52"
  from assms(1) have u: "quantum x = 2 powi j" by (simp add: quantum_def j_def)
  from assms(3) have "j \<le> k" by (simp add: j_def)
  from grid_multiple[OF this]
  have c: "of_int m * 2 powi k = of_int (m * 2 ^ nat (k - j)) * (2 :: rat) powi j" .
  from assms(1) u
  have b: "binary64 x = of_int (round_half_even (x / 2 powi j)) * 2 powi j"
    by (simp add: binary64_def)
  have up: "(0 :: rat) < 2 powi j" by simp
  from assms(2) have "of_int (m * 2 ^ nat (k - j)) * 2 powi j \<le> x" by (simp only: c)
  then have "of_int (m * 2 ^ nat (k - j)) \<le> x / 2 powi j"
    using up by (simp only: pos_le_divide_eq)
  then have "m * 2 ^ nat (k - j) \<le> round_half_even (x / 2 powi j)"
    by (rule round_half_even_lower)
  then have "(of_int (m * 2 ^ nat (k - j)) :: rat) \<le> of_int (round_half_even (x / 2 powi j))"
    by (simp only: of_int_le_iff)
  then have "of_int (m * 2 ^ nat (k - j)) * (2 :: rat) powi j
      \<le> of_int (round_half_even (x / 2 powi j)) * 2 powi j"
    using up by (intro mult_right_mono) simp_all
  then show ?thesis by (simp only: b c)
qed

lemma binary64_exact:
  assumes "0 < x" and "x = of_int m * 2 powi k" and "max (ilog2 x) (- 1022) - 52 \<le> k"
  shows "binary64 x = x"
proof -
  from assms have "binary64 x \<le> of_int m * 2 powi k"
    by (intro binary64_upper_grid) simp_all
  moreover from assms have "of_int m * 2 powi k \<le> binary64 x"
    by (intro binary64_lower_grid) simp_all
  ultimately show ?thesis using assms(2) by simp
qed

lemma ilog2_below:
  assumes "0 < x" and "x < 2 powi k"
  shows "ilog2 x < k"
proof -
  from ilog2_bounds[OF assms(1)] assms(2) have "(2 :: rat) powi (ilog2 x) < 2 powi k" by simp
  then show ?thesis by (rule two_powi_less_imp)
qed

lemma binary64_of_int:
  assumes "0 \<le> i" and "i \<le> 2 ^ 53"
  shows "binary64 (of_int i) = of_int i"
proof (cases "i = 0")
  case True
  then show ?thesis by (simp add: binary64_def)
next
  case False
  with assms have pos: "(0 :: rat) < of_int i" by simp
  show ?thesis
  proof (cases "i = 2 ^ 53")
    case True
    have "ilog2 (2 ^ 53) = 53"
      by (rule ilog2_unique) (simp_all add: power_int_def)
    with True have "max (ilog2 (of_int i)) (- 1022) - 52 \<le> 1" by simp
    moreover from True have "(of_int i :: rat) = of_int (2 ^ 52) * 2 powi 1" by simp
    ultimately show ?thesis using pos by (intro binary64_exact)
  next
    case ne: False
    with assms have "i < 2 ^ 53" by simp
    then have "(of_int i :: rat) < of_int (2 ^ 53)" by (simp only: of_int_less_iff)
    then have "(of_int i :: rat) < 2 powi 53" by (simp add: power_int_def)
    from ilog2_below[OF pos this] have "max (ilog2 (of_int i)) (- 1022) - 52 \<le> 0" by simp
    moreover have "(of_int i :: rat) = of_int i * 2 powi 0" by simp
    ultimately show ?thesis using pos by (intro binary64_exact)
  qed
qed

text \<open>Beyond \<open>2 ^ 53\<close> not every integer is a float, and the nearest float can be larger.\<close>

lemma float_above_integer: "binary64 (of_int (2 ^ 53 + 3)) = of_int (2 ^ 53 + 4)"
  by code_simp

lemma binary64_mono_pos:
  assumes "0 < x" and "x \<le> y"
  shows "binary64 x \<le> binary64 y"
proof -
  from assms have ypos: "0 < y" by simp
  define jx where "jx = max (ilog2 x) (- 1022) - 52"
  define jy where "jy = max (ilog2 y) (- 1022) - 52"
  from ilog2_mono[OF assms] have le: "jx \<le> jy" by (simp add: jx_def jy_def)
  show ?thesis
  proof (cases "jx = jy")
    case True
    from assms(1) have ux: "quantum x = 2 powi jx" by (simp add: quantum_def jx_def)
    from ypos True have uy: "quantum y = 2 powi jx" by (simp add: quantum_def jy_def)
    have up: "(0 :: rat) < 2 powi jx" by simp
    from assms(2) up have "x / 2 powi jx \<le> y / 2 powi jx" by (simp add: divide_right_mono)
    then have "round_half_even (x / 2 powi jx) \<le> round_half_even (y / 2 powi jx)"
      by (rule round_half_even_mono)
    then have "(of_int (round_half_even (x / 2 powi jx)) :: rat)
        \<le> of_int (round_half_even (y / 2 powi jx))"
      by (simp only: of_int_le_iff)
    then have "of_int (round_half_even (x / 2 powi jx)) * (2 :: rat) powi jx
        \<le> of_int (round_half_even (y / 2 powi jx)) * 2 powi jx"
      using up by (intro mult_right_mono) simp_all
    with assms(1) ypos ux uy show ?thesis by (simp add: binary64_def)
  next
    case False
    with le have lt: "jx < jy" by simp
    then have ey: "- 1022 < ilog2 y" and exy: "ilog2 x < ilog2 y"
      by (auto simp: jx_def jy_def max_def split: if_splits)
    define c :: rat where "c = of_int 1 * 2 powi (ilog2 y)"
    have jy: "jy = ilog2 y - 52" using ey by (simp add: jy_def)
    from ilog2_bounds[OF assms(1)] have "x < 2 powi (ilog2 x + 1)" by simp
    also from exy have "\<dots> \<le> 2 powi (ilog2 y)" by (intro two_powi_mono) simp
    finally have xc: "x \<le> c" by (simp add: c_def)
    from ilog2_bounds[OF ypos] have cy: "c \<le> y" by (simp add: c_def)
    from exy ey have "max (ilog2 x) (- 1022) - 52 \<le> ilog2 y" by simp
    with assms(1) xc have "binary64 x \<le> c"
      unfolding c_def by (intro binary64_upper_grid) simp_all
    moreover from ey have "max (ilog2 y) (- 1022) - 52 \<le> ilog2 y" by simp
    with ypos cy have "c \<le> binary64 y"
      unfolding c_def by (intro binary64_lower_grid) simp_all
    ultimately show ?thesis by simp
  qed
qed

lemma binary64_mono:
  assumes "0 \<le> x" and "x \<le> y"
  shows "binary64 x \<le> binary64 y"
proof (cases "x = 0")
  case True
  with assms binary64_nonneg[of y] show ?thesis by (simp add: binary64_zero)
next
  case False
  with assms have "0 < x" by simp
  then show ?thesis using assms(2) by (rule binary64_mono_pos)
qed

lemma binary64_error:
  assumes "0 < x" and "- 1022 \<le> ilog2 x"
  shows "binary64 x \<le> x + x / 2 ^ 53"
proof -
  define e where "e = ilog2 x"
  from assms have u: "quantum x = 2 powi (e - 52)" by (simp add: quantum_def e_def max_def)
  have up: "(0 :: rat) < 2 powi (e - 52)" by simp
  from round_half_even_close[of "x / 2 powi (e - 52)"]
  have "of_int (round_half_even (x / 2 powi (e - 52))) \<le> x / 2 powi (e - 52) + 1 / 2"
    by linarith
  then have "of_int (round_half_even (x / 2 powi (e - 52))) * 2 powi (e - 52)
      \<le> (x / 2 powi (e - 52) + 1 / 2) * 2 powi (e - 52)"
    using up by (intro mult_right_mono) simp_all
  also have "\<dots> = x + 2 powi (e - 52) / 2" using up by (simp add: field_simps)
  also have "2 powi (e - 52) / 2 = (2 :: rat) powi e / 2 ^ 53"
  proof -
    have "(2 :: rat) powi (e - 52 + 52) = 2 powi (e - 52) * 2 powi 52"
      by (rule power_int_add) simp
    then have "(2 :: rat) powi e = 2 powi (e - 52) * 2 ^ 52" by (simp add: power_int_def)
    then show ?thesis by simp
  qed
  also have "x + (2 :: rat) powi e / 2 ^ 53 \<le> x + x / 2 ^ 53"
    using ilog2_bounds[OF assms(1)] by (simp add: e_def divide_right_mono)
  finally show ?thesis using assms(1) u by (simp add: binary64_def)
qed

lemma ilog2_zero: "ilog2 0 = - 2"
  by code_simp

lemma not_overflows:
  assumes "0 \<le> binary64 x" and "binary64 x \<le> 2 ^ 53"
  shows "\<not> overflows x"
proof (cases "binary64 x = 0")
  case True
  then show ?thesis by (simp add: overflows_def ilog2_zero)
next
  case False
  with assms(1) have pos: "0 < binary64 x" by simp
  from assms(2) have "binary64 x < 2 powi 54" by (simp add: power_int_def)
  from ilog2_below[OF pos this] pos show ?thesis by (simp add: overflows_def)
qed

lemma nearest_hundredth_bounds:
  assumes "of_int a \<le> x" and "x \<le> of_int b"
  shows "of_int a \<le> nearest_hundredth x \<and> nearest_hundredth x \<le> of_int b"
proof -
  from assms(1) have "of_int (a * 100) \<le> x * 100" by simp
  then have lo: "a * 100 \<le> round_half_even (x * 100)" by (rule round_half_even_lower)
  from assms(2) have "x * 100 \<le> of_int (b * 100)" by simp
  then have hi: "round_half_even (x * 100) \<le> b * 100" by (rule round_half_even_upper)
  from lo have "(of_int (a * 100) :: rat) \<le> of_int (round_half_even (x * 100))"
    by (simp only: of_int_le_iff)
  moreover from hi have "(of_int (round_half_even (x * 100)) :: rat) \<le> of_int (b * 100)"
    by (simp only: of_int_le_iff)
  ultimately show ?thesis by (simp add: nearest_hundredth_def)
qed

lemma nearest_hundredth_close: "\<bar>nearest_hundredth x - x\<bar> \<le> 1 / 200"
proof -
  have "\<bar>of_int (round_half_even (x * 100)) - x * 100\<bar> \<le> 1 / 2"
    by (rule round_half_even_close)
  then show ?thesis by (simp add: nearest_hundredth_def abs_le_iff field_simps)
qed

lemma binary64_bounds:
  assumes "0 \<le> x" and "x \<le> of_int c" and "c \<le> 2 ^ 53"
  shows "0 \<le> binary64 x \<and> binary64 x \<le> of_int c \<and> \<not> overflows x"
proof -
  from assms(1,2) have c0: "0 \<le> c" by (metis of_int_0_le_iff order_trans)
  have lo: "0 \<le> binary64 x" using assms(1) by (rule binary64_nonneg)
  from binary64_mono[OF assms(1,2)] binary64_of_int[OF c0 assms(3)]
  have hi: "binary64 x \<le> of_int c" by simp
  from assms(3) have "(of_int c :: rat) \<le> of_int (2 ^ 53)" by (simp only: of_int_le_iff)
  with hi have "binary64 x \<le> 2 ^ 53" by simp
  from not_overflows[OF lo this] lo hi show ?thesis by simp
qed

lemma round2_bounds:
  assumes "0 \<le> x" and "x \<le> of_int c" and "c \<le> 2 ^ 53"
  shows "\<exists>r. round2 x = Inr r \<and> r = binary64 (nearest_hundredth x) \<and> 0 \<le> r \<and> r \<le> of_int c"
proof -
  from assms(1) have "of_int 0 \<le> x" by simp
  from nearest_hundredth_bounds[OF this assms(2)]
  have "0 \<le> nearest_hundredth x" "nearest_hundredth x \<le> of_int c" by simp_all
  from binary64_bounds[OF this assms(3)] show ?thesis by (simp add: round2_def)
qed

lemma binary64_error_lower:
  assumes "0 < x" and "- 1022 \<le> ilog2 x"
  shows "x - x / 2 ^ 53 \<le> binary64 x"
proof -
  define e where "e = ilog2 x"
  from assms have u: "quantum x = 2 powi (e - 52)" by (simp add: quantum_def e_def max_def)
  have up: "(0 :: rat) < 2 powi (e - 52)" by simp
  have h: "2 powi (e - 52) / 2 = (2 :: rat) powi e / 2 ^ 53"
  proof -
    have "(2 :: rat) powi (e - 52 + 52) = 2 powi (e - 52) * 2 powi 52"
      by (rule power_int_add) simp
    then have "(2 :: rat) powi e = 2 powi (e - 52) * 2 ^ 52" by (simp add: power_int_def)
    then show ?thesis by simp
  qed
  have "x - x / 2 ^ 53 \<le> x - (2 :: rat) powi e / 2 ^ 53"
    using ilog2_bounds[OF assms(1)] by (simp add: e_def divide_right_mono)
  also have "\<dots> = x - 2 powi (e - 52) / 2" by (simp only: h)
  also have "\<dots> = (x / 2 powi (e - 52) - 1 / 2) * 2 powi (e - 52)"
    using up by (simp add: field_simps)
  also have "\<dots> \<le> of_int (round_half_even (x / 2 powi (e - 52))) * 2 powi (e - 52)"
  proof -
    from round_half_even_close[of "x / 2 powi (e - 52)"]
    have "x / 2 powi (e - 52) - 1 / 2 \<le> of_int (round_half_even (x / 2 powi (e - 52)))"
      by linarith
    then show ?thesis using up by (intro mult_right_mono) simp_all
  qed
  finally show ?thesis using assms(1) u by (simp add: binary64_def)
qed

lemma quotient_normal:
  fixes t d :: int
  assumes "0 < t" and "0 < d" and "d \<le> 2 ^ 53"
  shows "- 1022 \<le> ilog2 (of_int t / of_int d)"
proof -
  have "ilog2 (2 powi (- 53)) = - 53"
    by (rule ilog2_unique) (simp_all add: power_int_def)
  moreover have "(2 :: rat) powi (- 53) \<le> of_int t / of_int d"
  proof -
    from assms(3) have "(of_int d :: rat) \<le> of_int (2 ^ 53)" by (simp only: of_int_le_iff)
    then have "(of_int d :: rat) \<le> 2 ^ 53" by simp
    moreover from assms(1) have "(1 :: rat) \<le> of_int t" by simp
    ultimately have "(of_int d :: rat) * 1 \<le> 2 ^ 53 * of_int t"
      by (intro mult_mono) simp_all
    then have "(1 :: rat) / 2 ^ 53 \<le> of_int t / of_int d"
      using assms(2) by (simp add: field_simps)
    then show ?thesis by (simp add: power_int_def field_simps)
  qed
  ultimately have "- 53 \<le> ilog2 (of_int t / of_int d)"
    using ilog2_mono[of "2 powi (- 53)" "of_int t / of_int d"] by simp
  then show ?thesis by simp
qed

text \<open>
  Rounding the float nearest to a quotient \<open>t / d\<close> of integers gives a hundredth nearest
  to \<open>t / d\<close> itself, as long as \<open>200 * t\<close> stays below \<open>2 ^ 53\<close>: the quotient is then either
  a tie \<open>(2 * k + 1) / 200\<close> or further from every tie than the float is from the quotient.
\<close>

lemma hundredth_of_float_quotient:
  fixes t d :: int
  assumes t0: "0 \<le> t" and d0: "0 < d" and d1: "d \<le> 2 ^ 53" and small: "200 * t < 2 ^ 53"
  shows "\<bar>nearest_hundredth (binary64 (of_int t / of_int d)) - of_int t / of_int d\<bar> \<le> 1 / 200"
proof (cases "t = 0")
  case True
  then show ?thesis
    by (simp add: binary64_zero nearest_hundredth_def round_half_even_of_int[of 0, simplified])
next
  case False
  with t0 have tpos: "0 < t" by simp
  define q :: rat where "q = of_int t / of_int d"
  define F where "F = binary64 q"
  define k where "k = round_half_even (F * 100)"
  define D :: rat where "D = of_int d"
  define T :: rat where "T = of_int t"
  define P where "P = F * D"
  from d0 have Dpos: "0 < D" by (simp add: D_def)
  from tpos d0 have qpos: "0 < q" by (simp add: q_def)
  have qD: "q * D = T" using d0 by (simp add: q_def D_def T_def)
  from quotient_normal[OF tpos d0 d1] have nrm: "- 1022 \<le> ilog2 q" by (simp add: q_def)
  from small have "(of_int (200 * t) :: rat) < of_int (2 ^ 53)" by (simp only: of_int_less_iff)
  then have T53: "200 * T < 2 ^ 53" by (simp add: T_def)
  have "(F - q) * D \<le> q / 2 ^ 53 * D"
    using binary64_error[OF qpos nrm] Dpos by (intro mult_right_mono) (simp_all add: F_def)
  then have up: "P - T \<le> T / 2 ^ 53" using qD by (simp add: P_def algebra_simps)
  have "(q - q / 2 ^ 53) * D \<le> F * D"
    using binary64_error_lower[OF qpos nrm] Dpos by (intro mult_right_mono) (simp_all add: F_def)
  then have lo: "T - T / 2 ^ 53 \<le> P" using qD by (simp add: P_def algebra_simps)
  from round_half_even_close[of "F * 100"]
  have kc: "\<bar>of_int k - F * 100\<bar> \<le> 1 / 2" by (simp only: k_def)
  have e1: "(of_int (2 * k + 1) :: rat) = 2 * of_int k + 1" by simp
  have e2: "(of_int (2 * k - 1) :: rat) = 2 * of_int k - 1" by simp
  from kc have c: "F * 200 \<le> of_int (2 * k + 1)" "of_int (2 * k - 1) \<le> F * 200"
    unfolding e1 e2 by linarith+
  from c(1) Dpos have "F * 200 * D \<le> of_int (2 * k + 1) * D" by (intro mult_right_mono) simp_all
  then have c1: "200 * P \<le> of_int (2 * k + 1) * D" by (simp add: P_def algebra_simps)
  from c(2) Dpos have "of_int (2 * k - 1) * D \<le> F * 200 * D" by (intro mult_right_mono) simp_all
  then have c2: "of_int (2 * k - 1) * D \<le> 200 * P" by (simp add: P_def algebra_simps)
  have hi: "200 * t \<le> (2 * k + 1) * d"
  proof (rule ccontr)
    assume "\<not> 200 * t \<le> (2 * k + 1) * d"
    then have "(2 * k + 1) * d + 1 \<le> 200 * t" by simp
    then have "(of_int ((2 * k + 1) * d + 1) :: rat) \<le> of_int (200 * t)"
      by (simp only: of_int_le_iff)
    then have "of_int (2 * k + 1) * D + 1 \<le> 200 * T" by (simp add: D_def T_def)
    with c1 lo T53 show False by simp
  qed
  have low: "(2 * k - 1) * d \<le> 200 * t"
  proof (rule ccontr)
    assume "\<not> (2 * k - 1) * d \<le> 200 * t"
    then have "200 * t + 1 \<le> (2 * k - 1) * d" by simp
    then have "(of_int (200 * t + 1) :: rat) \<le> of_int ((2 * k - 1) * d)"
      by (simp only: of_int_le_iff)
    then have "200 * T + 1 \<le> of_int (2 * k - 1) * D" by (simp add: D_def T_def)
    with c2 up T53 show False by simp
  qed
  from hi have "(of_int (200 * t) :: rat) \<le> of_int ((2 * k + 1) * d)" by (simp only: of_int_le_iff)
  then have "200 * T \<le> (2 * of_int k + 1) * D" by (simp add: D_def T_def)
  then have "200 * (q * D) \<le> (2 * of_int k + 1) * D" by (simp only: qD)
  then have "200 * q * D \<le> (2 * of_int k + 1) * D" by (simp only: mult.assoc)
  then have a: "200 * q \<le> 2 * of_int k + 1" using Dpos by (simp only: mult_le_cancel_right_pos)
  from low have "(of_int ((2 * k - 1) * d) :: rat) \<le> of_int (200 * t)" by (simp only: of_int_le_iff)
  then have "(2 * of_int k - 1) * D \<le> 200 * T" by (simp add: D_def T_def)
  then have "(2 * of_int k - 1) * D \<le> 200 * (q * D)" by (simp only: qD)
  then have "(2 * of_int k - 1) * D \<le> 200 * q * D" by (simp only: mult.assoc)
  then have b: "2 * of_int k - 1 \<le> 200 * q" using Dpos by (simp only: mult_le_cancel_right_pos)
  have "nearest_hundredth F * 100 = of_int k" by (simp add: nearest_hundredth_def k_def)
  with a b have "\<bar>nearest_hundredth F - q\<bar> \<le> 1 / 200" by linarith
  then show ?thesis by (simp add: F_def q_def)
qed

text \<open>
  Quotients whose exact value is a tie between two hundredths. The float nearest to
  \<open>39/40\<close> lies below the tie, the floats nearest to \<open>1/40\<close> and \<open>1/200\<close> lie above it;
  \<open>1/8\<close> and \<open>3/8\<close> are floats, and the tie goes to the even hundredth. Python prints
  \<^verbatim>\<open>0.97\<close>, \<^verbatim>\<open>0.03\<close>, \<^verbatim>\<open>0.01\<close>, \<^verbatim>\<open>0.12\<close> and \<^verbatim>\<open>0.38\<close>.
\<close>

lemma round2_examples:
  "round2 (binary64 (39 / 40)) = Inr (binary64 (97 / 100)) \<and>
   round2 (binary64 (1 / 40)) = Inr (binary64 (3 / 100)) \<and>
   round2 (binary64 (1000 / 200000)) = Inr (binary64 (1 / 100)) \<and>
   round2 (binary64 (1 / 8)) = Inr (binary64 (12 / 100)) \<and>
   round2 (binary64 (3 / 8)) = Inr (binary64 (38 / 100))"
  by code_simp

section \<open>A run and its statistics\<close>

lemma quotient_bounds:
  fixes t d m :: int
  assumes "0 \<le> t" and "t \<le> m * d" and "0 < d"
  shows "(of_int 0 :: rat) \<le> of_int t / of_int d \<and> (of_int t / of_int d :: rat) \<le> of_int m"
proof -
  from assms(3) have d: "(0 :: rat) < of_int d" by simp
  from assms(1) d have "(0 :: rat) \<le> of_int t / of_int d" by simp
  moreover from assms(2) have "(of_int t :: rat) \<le> of_int m * of_int d"
    by (metis of_int_le_iff of_int_mult)
  with d have "(of_int t / of_int d :: rat) \<le> of_int m"
    by (simp add: pos_divide_le_eq)
  ultimately show ?thesis by simp
qed

lemma run_simulation_unfold:
  assumes "initialize parts s = Inr s1"
    and "trials (nat (n_of_simulations s1)) n_of_lands s1 g = Inr (s2, g2)"
  shows "run_simulation parts n_of_lands s g =
     (case average_of s2 of
        Inl e \<Rightarrow> Inl e
      | Inr average_tries \<Rightarrow>
          (case percentage_of s2 of
             Inl e \<Rightarrow> Inl e
           | Inr percentage \<Rightarrow> Inr (s2, g2, average_tries, percentage)))"
  using assms by (simp add: run_simulation_def)

lemma run_simulation_Inr:
  assumes "run_simulation parts n_of_lands s g = Inr (s2, g2, average_tries, percentage)"
  shows "\<exists>s1. initialize parts s = Inr s1 \<and>
     trials (nat (n_of_simulations s1)) n_of_lands s1 g = Inr (s2, g2) \<and>
     average_of s2 = Inr average_tries \<and> percentage_of s2 = Inr percentage"
proof (cases "initialize parts s")
  case (Inl e)
  with assms show ?thesis by (simp add: run_simulation_def)
next
  case (Inr s1)
  show ?thesis
  proof (cases "trials (nat (n_of_simulations s1)) n_of_lands s1 g")
    case (Inl e)
    with assms Inr show ?thesis by (simp add: run_simulation_def)
  next
    case r: (Inr r)
    obtain sa ga where "r = (sa, ga)" by (cases r)
    with r have t: "trials (nat (n_of_simulations s1)) n_of_lands s1 g = Inr (sa, ga)" by simp
    from assms have eq: "sa = s2" "ga = g2"
      unfolding run_simulation_unfold[OF Inr t] by (simp_all split: sum.splits)
    from assms have "average_of s2 = Inr average_tries \<and> percentage_of s2 = Inr percentage"
      unfolding run_simulation_unfold[OF Inr t] eq by (simp split: sum.splits)
    with t eq have "trials (nat (n_of_simulations s1)) n_of_lands s1 g = Inr (s2, g2) \<and>
        average_of s2 = Inr average_tries \<and> percentage_of s2 = Inr percentage"
      by simp
    with Inr show ?thesis by blast
  qed
qed

lemma trials_from_initialize:
  assumes i: "initialize parts s = Inr s1"
    and t: "trials (nat (n_of_simulations s1)) n_of_lands s1 g = Inr (s2, g2)"
    and cap: "0 \<le> max_tap_tries s"
  shows "tally_ok (int (nat (n_of_simulations s2))) s2 \<and> max_tap_tries s2 = max_tap_tries s \<and>
         n_of_simulations s2 = n_of_simulations s"
proof -
  note c = initialize_counters[OF i]
  from c cap have cap1: "0 \<le> max_tap_tries s1" by simp
  from trials_invariant[OF t initialize_tally[OF i] cap1] c show ?thesis
    by (simp add: same_setup_def)
qed

text \<open>The average: the float nearest to the quotient, rounded to hundredths.\<close>

lemma average_of_value:
  assumes "n_of_simulations s - impossible s \<noteq> 0"
    and "0 \<le> of_int (total_tries s) / (of_int (n_of_simulations s - impossible s) :: rat)"
    and "of_int (total_tries s) / of_int (n_of_simulations s - impossible s) \<le> (of_int c :: rat)"
    and "c \<le> 2 ^ 53"
  shows "average_of s =
           Inr (binary64 (nearest_hundredth (binary64
             (of_int (total_tries s) / of_int (n_of_simulations s - impossible s))))) \<and>
         0 \<le> binary64 (nearest_hundredth (binary64
             (of_int (total_tries s) / of_int (n_of_simulations s - impossible s)))) \<and>
         binary64 (nearest_hundredth (binary64
             (of_int (total_tries s) / of_int (n_of_simulations s - impossible s)))) \<le> of_int c"
proof -
  define x :: rat where "x = of_int (total_tries s) / of_int (n_of_simulations s - impossible s)"
  from assms(2,3) have x: "0 \<le> x" "x \<le> of_int c" by (simp_all add: x_def)
  from binary64_bounds[OF x assms(4)]
  have q: "0 \<le> binary64 x" "binary64 x \<le> of_int c" "\<not> overflows x" by simp_all
  from assms(1) q(3) have d: "int_truediv (total_tries s) (n_of_simulations s - impossible s) =
      Inr (binary64 x)"
    by (simp add: int_truediv_def x_def)
  from round2_bounds[OF q(1,2) assms(4)] d show ?thesis
    by (auto simp: average_of_def x_def)
qed

lemma average_of_Inr:
  assumes "average_of s = Inr a"
  shows "n_of_simulations s - impossible s \<noteq> 0 \<and>
         a = binary64 (nearest_hundredth (binary64
               (of_int (total_tries s) / of_int (n_of_simulations s - impossible s))))"
  using assms
  by (auto simp: average_of_def int_truediv_def round2_def split: if_splits sum.splits)

lemma percentage_of_Inr:
  assumes "percentage_of s = Inr p"
  shows "binary64 (of_int (n_of_simulations s)) \<noteq> 0 \<and>
         p = binary64 (nearest_hundredth (binary64
               (binary64 (binary64 (of_int (successful s)) * 100) /
                binary64 (of_int (n_of_simulations s)))))"
  using assms
  by (auto simp: percentage_of_def float_of_int_def float_mul_def float_truediv_def round2_def
      split: if_splits sum.splits)

lemma ilog2_one: "ilog2 1 = 0"
  by code_simp

lemma binary64_one: "binary64 1 = 1"
  using binary64_of_int[of 1] by simp

lemma percentage_chain_bound:
  fixes f d :: rat
  assumes f: "0 \<le> f" "f \<le> d" and d: "1 \<le> d"
  shows "0 \<le> binary64 (nearest_hundredth (binary64 (binary64 (f * 100) / d))) \<and>
         binary64 (nearest_hundredth (binary64 (binary64 (f * 100) / d))) \<le> 100"
proof -
  define y where "y = binary64 (f * 100)"
  define z where "z = binary64 (y / d)"
  from d have dpos: "0 < d" by simp
  have y0: "0 \<le> y" unfolding y_def using f(1) by (intro binary64_nonneg) simp
  from f have "0 \<le> f * 100" "f * 100 \<le> d * 100" by simp_all
  then have y1: "y \<le> binary64 (d * 100)" unfolding y_def by (rule binary64_mono)
  have big: "1 \<le> d * 100" using d by simp
  then have pos: "0 < d * 100" by simp
  have "ilog2 1 \<le> ilog2 (d * 100)" using big by (intro ilog2_mono) simp_all
  then have "- 1022 \<le> ilog2 (d * 100)" by (simp add: ilog2_one)
  from binary64_error[OF pos this] y1 have "y \<le> d * 100 + d * 100 / 2 ^ 53" by simp
  then have "y / d \<le> (d * 100 + d * 100 / 2 ^ 53) / d"
    using dpos by (intro divide_right_mono) simp_all
  also have "\<dots> = 100 + 100 / 2 ^ 53" using dpos by (simp add: field_simps)
  also have "\<dots> \<le> of_int (100 * 2 ^ 46 + 1) * 2 powi (- 46)"
    by (simp add: power_int_def field_simps)
  finally have x1: "y / d \<le> of_int (100 * 2 ^ 46 + 1) * 2 powi (- 46)" .
  have x0: "0 \<le> y / d" using y0 dpos by simp
  have z0: "0 \<le> z" unfolding z_def using x0 by (rule binary64_nonneg)
  have z1: "z \<le> of_int (100 * 2 ^ 46 + 1) * 2 powi (- 46)"
  proof (cases "y / d = 0")
    case True
    have "z = 0" unfolding z_def True by (rule binary64_zero)
    then show ?thesis by (simp add: power_int_def)
  next
    case False
    have xpos: "0 < y / d"
      by (rule order.not_eq_order_implies_strict[OF False[symmetric] x0])
    have "of_int (100 * 2 ^ 46 + 1) * 2 powi (- 46) < (2 :: rat) powi 7"
      by (simp add: power_int_def field_simps)
    with x1 have "y / d < 2 powi 7" by (rule le_less_trans)
    from ilog2_below[OF xpos this] have "max (ilog2 (y / d)) (- 1022) - 52 \<le> - 46" by simp
    from binary64_upper_grid[OF xpos x1 this] show ?thesis by (simp add: z_def)
  qed
  have "of_int (100 * 2 ^ 46 + 1) * 2 powi (- 46) * 100 < (of_int 10000 + 1 / 2 :: rat)"
    by (simp add: power_int_def field_simps)
  moreover from z1 have "z * 100 \<le> of_int (100 * 2 ^ 46 + 1) * 2 powi (- 46) * 100"
    by (rule mult_right_mono) simp
  ultimately have "z * 100 < of_int 10000 + 1 / 2" by (rule le_less_trans[rotated])
  then have "round_half_even (z * 100) \<le> 10000" by (rule round_half_even_below_half)
  then have "(of_int (round_half_even (z * 100)) :: rat) \<le> of_int 10000"
    by (simp only: of_int_le_iff)
  then have n1: "nearest_hundredth z \<le> of_int 100" by (simp add: nearest_hundredth_def)
  from z0 have "of_int 0 \<le> z" by simp
  from nearest_hundredth_bounds[OF this, of "\<lceil>z\<rceil>"] have n0: "0 \<le> nearest_hundredth z"
    by (simp add: le_of_int_ceiling)
  from binary64_bounds[OF n0 n1] show ?thesis by (simp add: z_def y_def)
qed

lemma percentage_of_bounds:
  assumes "percentage_of s = Inr p" and "0 \<le> successful s"
    and "successful s \<le> n_of_simulations s \<or> successful s = 0"
  shows "0 \<le> p \<and> p \<le> 100"
proof -
  note v = percentage_of_Inr[OF assms(1)]
  define f where "f = binary64 (of_int (successful s))"
  define d where "d = binary64 (of_int (n_of_simulations s))"
  from v have p: "p = binary64 (nearest_hundredth (binary64 (binary64 (f * 100) / d)))"
    by (simp add: f_def d_def)
  show ?thesis
  proof (cases "successful s = 0")
    case True
    then have "f = 0" by (simp add: f_def binary64_zero)
    then have "binary64 (nearest_hundredth (binary64 (binary64 (f * 100) / d))) = 0"
      by (simp add: binary64_zero nearest_hundredth_def round_half_even_of_int[of 0, simplified])
    with p show ?thesis by simp
  next
    case False
    with assms(2,3) have s: "0 < successful s" "successful s \<le> n_of_simulations s" by simp_all
    have f0: "0 \<le> f" unfolding f_def by (intro binary64_nonneg) (use s in simp)
    have fd: "f \<le> d" unfolding f_def d_def by (intro binary64_mono) (use s in simp_all)
    from s have "(1 :: rat) \<le> of_int (n_of_simulations s)" by simp
    then have "binary64 1 \<le> d" unfolding d_def by (intro binary64_mono) simp_all
    then have "1 \<le> d" by (simp add: binary64_one)
    from percentage_chain_bound[OF f0 fd this] p show ?thesis by simp
  qed
qed

lemma percentage_of_value:
  assumes "0 \<le> successful s" and "successful s \<le> n_of_simulations s"
    and "0 < n_of_simulations s" and "n_of_simulations s \<le> 2 ^ 46"
  shows "percentage_of s =
           Inr (binary64 (nearest_hundredth (binary64
             (of_int (successful s * 100) / of_int (n_of_simulations s)))))"
proof -
  define S where "S = successful s"
  define N where "N = n_of_simulations s"
  from assms have S: "0 \<le> S" "S \<le> N" and N: "0 < N" "N \<le> 2 ^ 46"
    by (simp_all add: S_def N_def)
  from S N have S53: "S \<le> 2 ^ 53" and N53: "N \<le> 2 ^ 53" and SH: "S * 100 \<le> 2 ^ 53"
    by simp_all
  have "(0 :: rat) \<le> of_int S" "(of_int S :: rat) \<le> of_int S" using S by simp_all
  from binary64_bounds[OF this S53] binary64_of_int[OF S(1) S53]
  have f: "float_of_int S = Inr (of_int S)" by (simp add: float_of_int_def)
  have "(0 :: rat) \<le> of_int (S * 100)" "(of_int (S * 100) :: rat) \<le> of_int (S * 100)"
    using S by simp_all
  from binary64_bounds[OF this SH] binary64_of_int[of "S * 100"] S SH
  have y: "float_mul (of_int S) 100 = Inr (of_int (S * 100))" by (simp add: float_mul_def)
  have "(0 :: rat) \<le> of_int N" "(of_int N :: rat) \<le> of_int N" using N by simp_all
  from binary64_bounds[OF this N53] binary64_of_int[of N] N N53
  have d: "float_of_int N = Inr (of_int N)" by (simp add: float_of_int_def)
  define x :: rat where "x = of_int (S * 100) / of_int N"
  from S N have "0 \<le> x" by (simp add: x_def)
  moreover from S have "S * 100 \<le> 100 * N" by simp
  then have "(of_int (S * 100) :: rat) \<le> of_int (100 * N)" by (simp only: of_int_le_iff)
  then have "x \<le> of_int 100" using N by (simp add: x_def pos_divide_le_eq)
  ultimately have xb: "0 \<le> binary64 x" "binary64 x \<le> of_int 100" "\<not> overflows x"
    using binary64_bounds[of x 100] by simp_all
  from N xb(3) have z: "float_truediv (of_int (S * 100)) (of_int N) = Inr (binary64 x)"
    by (simp add: float_truediv_def x_def)
  from round2_bounds[OF xb(1,2)]
  have r: "round2 (binary64 x) = Inr (binary64 (nearest_hundredth (binary64 x)))" by auto
  have "percentage_of s = Inr (binary64 (nearest_hundredth (binary64 x)))"
    by (simp only: percentage_of_def S_def[symmetric] N_def[symmetric] f y d z r sum.case)
  then show ?thesis by (simp only: x_def S_def N_def)
qed

text \<open>
  C5. A run that completes its trials with the counter \<^verbatim>\<open>impossible\<close> below
  \<^verbatim>\<open>n_of_simulations\<close> (at least one trial not counted as infeasible) reports the two
  statistics \<^verbatim>\<open>total_tries / (n_of_simulations - impossible)\<close> and
  \<^verbatim>\<open>successful * 100 / n_of_simulations\<close>, each rounded to two decimal digits. The values
  are those of the floating-point computation of the program: each quotient is rounded to
  the nearest float, that float to the nearest hundredth, and the hundredth is reported as
  the float nearest to it. The hundredth is a nearest hundredth of the exact quotient, at
  most half a hundredth away from it. The sizes are those of a run that can be carried
  out: at most \<open>2 ^ 38\<close> trials and at most \<open>2 ^ 45\<close> tap attempts in all trials together
  (the program has 200000 trials of at most 50 attempts).
\<close>

theorem run_simulation_statistics:
  assumes "initialize parts s = Inr s1"
    and "trials (nat (n_of_simulations s1)) n_of_lands s1 g = Inr (s2, g2)"
    and "impossible s2 < n_of_simulations s2"
    and "0 \<le> max_tap_tries s"
    and "max_tap_tries s * n_of_simulations s \<le> 2 ^ 45"
    and "n_of_simulations s \<le> 2 ^ 38"
  shows "run_simulation parts n_of_lands s g =
           Inr (s2, g2,
                binary64 (nearest_hundredth (binary64
                  (of_int (total_tries s2) / of_int (n_of_simulations s2 - impossible s2)))),
                binary64 (nearest_hundredth (binary64
                  (of_int (successful s2 * 100) / of_int (n_of_simulations s2))))) \<and>
         \<bar>nearest_hundredth (binary64
             (of_int (total_tries s2) / of_int (n_of_simulations s2 - impossible s2))) -
           of_int (total_tries s2) / of_int (n_of_simulations s2 - impossible s2)\<bar> \<le> 1 / 200 \<and>
         \<bar>nearest_hundredth (binary64
             (of_int (successful s2 * 100) / of_int (n_of_simulations s2))) -
           of_int (successful s2 * 100) / of_int (n_of_simulations s2)\<bar> \<le> 1 / 200 \<and>
         (\<forall>x. \<exists>k :: int. nearest_hundredth x = of_int k / 100)"
proof -
  define N where "N = n_of_simulations s2"
  define K where "K = int (nat N)"
  define I where "I = impossible s2"
  define S where "S = successful s2"
  define T where "T = total_tries s2"
  define M where "M = max_tap_tries s"
  from trials_from_initialize[OF assms(1,2,4)]
  have inv: "tally_ok K s2" and cap: "max_tap_tries s2 = M" and same: "N = n_of_simulations s"
    unfolding K_def N_def M_def by blast+
  from inv cap have facts: "0 \<le> S" "0 \<le> I" "0 \<le> T" "S + I \<le> K" "T \<le> M * (K - I)"
    by (simp_all add: tally_ok_def I_def S_def T_def)
  from assms(3) have IN: "I < N" by (simp add: I_def N_def)
  with facts(2) have Npos: "0 < N" by simp
  then have K: "K = N" by (simp add: K_def)
  from assms(4,5,6) same have M0: "0 \<le> M" and MN: "M * N \<le> 2 ^ 45" and N38: "N \<le> 2 ^ 38"
    by (simp_all add: M_def)
  from IN have D0: "0 < N - I" by simp
  from facts(2) have DN: "N - I \<le> N" by simp
  from M0 DN have "M * (N - I) \<le> M * N" by (rule mult_left_mono[rotated])
  with facts(5) K MN have TD: "T \<le> M * (N - I)" and T45: "T \<le> 2 ^ 45" by simp_all
  from M0 Npos have "M * 1 \<le> M * N" by (intro mult_left_mono) simp_all
  with MN have M53: "M \<le> 2 ^ 53" by simp
  from DN N38 have D53: "N - I \<le> 2 ^ 53" by simp
  from T45 have T200: "200 * T < 2 ^ 53" by simp
  from facts(1,4) K facts(2) have SN: "S \<le> N" by simp
  with N38 have S200: "200 * (S * 100) < 2 ^ 53" by simp
  from N38 have N53: "N \<le> 2 ^ 53" and N46: "N \<le> 2 ^ 46" by simp_all
  from facts(1) have S0: "0 \<le> S * 100" by simp
  note qb = quotient_bounds[OF facts(3) TD D0]
  from D0 have nz: "n_of_simulations s2 - impossible s2 \<noteq> 0" by (simp add: N_def I_def)
  from qb have q0: "0 \<le> of_int (total_tries s2) /
        (of_int (n_of_simulations s2 - impossible s2) :: rat)"
    and q1: "of_int (total_tries s2) / of_int (n_of_simulations s2 - impossible s2)
        \<le> (of_int M :: rat)"
    by (simp_all add: N_def I_def T_def)
  from average_of_value[OF nz q0 q1 M53]
  have a: "average_of s2 =
           Inr (binary64 (nearest_hundredth (binary64
             (of_int (total_tries s2) / of_int (n_of_simulations s2 - impossible s2)))))"
    by simp
  have "0 \<le> successful s2" "successful s2 \<le> n_of_simulations s2" "0 < n_of_simulations s2"
    "n_of_simulations s2 \<le> 2 ^ 46"
    using facts(1) SN Npos N46 by (simp_all add: S_def N_def)
  then have p: "percentage_of s2 =
           Inr (binary64 (nearest_hundredth (binary64
             (of_int (successful s2 * 100) / of_int (n_of_simulations s2)))))"
    by (rule percentage_of_value)
  have r: "run_simulation parts n_of_lands s g =
           Inr (s2, g2,
                binary64 (nearest_hundredth (binary64
                  (of_int (total_tries s2) / of_int (n_of_simulations s2 - impossible s2)))),
                binary64 (nearest_hundredth (binary64
                  (of_int (successful s2 * 100) / of_int (n_of_simulations s2)))))"
    by (simp only: run_simulation_unfold[OF assms(1,2)] a p sum.case)
  have ca: "\<bar>nearest_hundredth (binary64
             (of_int (total_tries s2) / of_int (n_of_simulations s2 - impossible s2))) -
           of_int (total_tries s2) / of_int (n_of_simulations s2 - impossible s2)\<bar> \<le> 1 / 200"
    using hundredth_of_float_quotient[OF facts(3) D0 D53 T200] by (simp only: T_def N_def I_def)
  have cp: "\<bar>nearest_hundredth (binary64
             (of_int (successful s2 * 100) / of_int (n_of_simulations s2))) -
           of_int (successful s2 * 100) / of_int (n_of_simulations s2)\<bar> \<le> 1 / 200"
    using hundredth_of_float_quotient[OF S0 Npos N53 S200] by (simp only: S_def N_def)
  have "\<exists>k :: int. nearest_hundredth x = of_int k / 100" for x
    unfolding nearest_hundredth_def by (rule exI[of _ "round_half_even (x * 100)"]) simp
  with r ca cp show ?thesis by blast
qed

theorem run_simulation_statistics_witness:
  "\<exists>g2.
     initialize (deck_of [(''WU'', 2)]) (init\<lparr>n_of_simulations := 3\<rparr>) =
       Inr (init\<lparr>n_of_simulations := 3, deck_colors := Some ''WU'',
                 land_base := zip land_types (deck_of [(''WU'', 2)]),
                 draw_pile := [''WU'', ''WU'']\<rparr>) \<and>
     trials 3 2
       (init\<lparr>n_of_simulations := 3, deck_colors := Some ''WU'',
             land_base := zip land_types (deck_of [(''WU'', 2)]),
             draw_pile := [''WU'', ''WU'']\<rparr>) (\<lambda>i. i div 2) =
       Inr (init\<lparr>n_of_simulations := 3, deck_colors := Some ''WU'',
                 land_base := zip land_types (deck_of [(''WU'', 2)]),
                 draw_pile := [''WU'', ''WU''], successful := 2, total_tries := 50\<rparr>, g2) \<and>
     run_simulation (deck_of [(''WU'', 2)]) 2 (init\<lparr>n_of_simulations := 3\<rparr>) (\<lambda>i. i div 2) =
       Inr (init\<lparr>n_of_simulations := 3, deck_colors := Some ''WU'',
                 land_base := zip land_types (deck_of [(''WU'', 2)]),
                 draw_pile := [''WU'', ''WU''], successful := 2, total_tries := 50\<rparr>, g2,
            binary64 (1667 / 100), binary64 (6667 / 100)) \<and>
     \<bar>1667 / 100 - 50 / 3 :: rat\<bar> \<le> 1 / 200 \<and> \<bar>6667 / 100 - 200 / 3 :: rat\<bar> \<le> 1 / 200"
proof -
  let ?s0 = "init\<lparr>n_of_simulations := 3\<rparr>"
  let ?s1 = "init\<lparr>n_of_simulations := 3, deck_colors := Some ''WU'',
                 land_base := zip land_types (deck_of [(''WU'', 2)]),
                 draw_pile := [''WU'', ''WU'']\<rparr>"
  let ?s2 = "init\<lparr>n_of_simulations := 3, deck_colors := Some ''WU'',
                 land_base := zip land_types (deck_of [(''WU'', 2)]),
                 draw_pile := [''WU'', ''WU''], successful := 2, total_tries := 50\<rparr>"
  have i: "initialize (deck_of [(''WU'', 2)]) ?s0 = Inr ?s1"
    by code_simp
  have n: "nat (n_of_simulations ?s1) = 3" by simp
  have "map_sum id fst (trials 3 2 ?s1 (\<lambda>i. i div 2)) = Inr ?s2"
    by code_simp
  then obtain g2 where t: "trials 3 2 ?s1 (\<lambda>i. i div 2) = Inr (?s2, g2)"
    by (cases "trials 3 2 ?s1 (\<lambda>i. i div 2)") auto
  have f: "impossible ?s2 < n_of_simulations ?s2" by (simp add: init_def)
  have c: "0 \<le> max_tap_tries ?s0" "max_tap_tries ?s0 * n_of_simulations ?s0 \<le> 2 ^ 45"
    "n_of_simulations ?s0 \<le> 2 ^ 38"
    by (simp_all add: init_def)
  have a: "nearest_hundredth (binary64
      (of_int (total_tries ?s2) / of_int (n_of_simulations ?s2 - impossible ?s2))) = 1667 / 100"
    by code_simp
  have p: "nearest_hundredth (binary64
      (of_int (successful ?s2 * 100) / of_int (n_of_simulations ?s2))) = 6667 / 100"
    by code_simp
  have qa: "(of_int (total_tries ?s2) / of_int (n_of_simulations ?s2 - impossible ?s2) :: rat)
      = 50 / 3"
    by (simp add: init_def)
  have qp: "(of_int (successful ?s2 * 100) / of_int (n_of_simulations ?s2) :: rat) = 200 / 3"
    by (simp add: init_def)
  from run_simulation_statistics[OF i t[folded n] f c] i t show ?thesis
    unfolding a p unfolding qa qp by blast
qed

text \<open>
  C9. In every run that completes, with an attempt limit that is not negative and is a
  float (every integer up to \<open>2 ^ 53\<close> is one; the program has 50), the reported success
  percentage lies in \<open>[0, 100]\<close> and the reported average number of tap attempts lies in
  \<open>[0, max_tap_tries]\<close>. A run completes only if \<^verbatim>\<open>n_of_simulations - impossible\<close> is not
  zero, that is, if at least one trial was not counted as impossible. The bounds are those
  of the exact quotients; rounding to the nearest float and to hundredths is monotone and
  leaves 0, 100 and the limit in place. A limit that is not a float has a nearest float
  that may exceed it (\<open>float_above_integer\<close>), hence the condition.
\<close>

theorem reported_statistics_in_range:
  assumes "run_simulation parts n_of_lands s g = Inr (s2, g2, average_tries, percentage)"
    and "0 \<le> max_tap_tries s"
    and "binary64 (of_int (max_tap_tries s)) = of_int (max_tap_tries s)"
  shows "0 \<le> percentage \<and> percentage \<le> 100 \<and>
         0 \<le> average_tries \<and> average_tries \<le> of_int (max_tap_tries s)"
proof -
  from run_simulation_Inr[OF assms(1)] obtain s1 where i: "initialize parts s = Inr s1"
    and t: "trials (nat (n_of_simulations s1)) n_of_lands s1 g = Inr (s2, g2)"
    and avg: "average_of s2 = Inr average_tries"
    and pct: "percentage_of s2 = Inr percentage"
    by blast
  define N where "N = n_of_simulations s2"
  define K where "K = int (nat N)"
  define I where "I = impossible s2"
  define S where "S = successful s2"
  define T where "T = total_tries s2"
  define M where "M = max_tap_tries s"
  from trials_from_initialize[OF i t assms(2)]
  have inv: "tally_ok K s2" and cap: "max_tap_tries s2 = M"
    unfolding K_def N_def M_def by blast+
  from inv cap have facts: "0 \<le> S" "0 \<le> I" "0 \<le> T" "S + I \<le> K" "T \<le> M * (K - I)"
    by (simp_all add: tally_ok_def I_def S_def T_def)
  from average_of_Inr[OF avg] have nz: "N - I \<noteq> 0"
    and a: "average_tries = binary64 (nearest_hundredth (binary64 (of_int T / of_int (N - I))))"
    by (simp_all add: N_def I_def T_def)
  from assms(2,3) have M0: "0 \<le> M" and Mf: "binary64 (of_int M) = of_int M"
    by (simp_all add: M_def)
  have q: "(of_int 0 :: rat) \<le> of_int T / of_int (N - I) \<and>
           (of_int T / of_int (N - I) :: rat) \<le> of_int M \<and> (S \<le> N \<or> S = 0)"
  proof (cases "0 < N")
    case True
    then have K: "K = N" by (simp add: K_def)
    from facts K nz have d: "0 < N - I" by simp
    from facts K have "T \<le> M * (N - I)" by simp
    from quotient_bounds[OF facts(3) this d] facts K show ?thesis by simp
  next
    case False
    then have K: "K = 0" by (simp add: K_def)
    from facts K have "S = 0" "I = 0" by simp_all
    with facts K have "T = 0" by simp
    with \<open>S = 0\<close> M0 show ?thesis by simp
  qed
  define x :: rat where "x = of_int T / of_int (N - I)"
  from q have x: "0 \<le> x" "x \<le> of_int M" by (simp_all add: x_def)
  have f0: "of_int 0 \<le> binary64 x" using binary64_nonneg[OF x(1)] by simp
  from binary64_mono[OF x] Mf have f1: "binary64 x \<le> of_int M" by simp
  from nearest_hundredth_bounds[OF f0 f1]
  have h: "0 \<le> nearest_hundredth (binary64 x)" "nearest_hundredth (binary64 x) \<le> of_int M"
    by simp_all
  from binary64_nonneg[OF h(1)] binary64_mono[OF h] Mf a
  have A: "0 \<le> average_tries \<and> average_tries \<le> of_int M" by (simp add: x_def)
  from q facts(1) have "0 \<le> successful s2"
    "successful s2 \<le> n_of_simulations s2 \<or> successful s2 = 0"
    by (simp_all add: S_def N_def)
  from percentage_of_bounds[OF pct this] A show ?thesis by (simp add: M_def)
qed

theorem reported_statistics_in_range_witness:
  "\<exists>s2 g2.
     run_simulation (deck_of [(''WU'', 2), (''W'', 2)]) 2
       (init\<lparr>n_of_simulations := 3, max_tap_tries := 2\<rparr>) (\<lambda>i. i div 4) =
       Inr (s2, g2, binary64 (67 / 100), binary64 (6667 / 100)) \<and>
     0 \<le> max_tap_tries (init\<lparr>n_of_simulations := 3, max_tap_tries := 2\<rparr>) \<and>
     binary64 (of_int (max_tap_tries (init\<lparr>n_of_simulations := 3, max_tap_tries := 2\<rparr>))) =
       of_int (max_tap_tries (init\<lparr>n_of_simulations := 3, max_tap_tries := 2\<rparr>)) \<and>
     0 \<le> binary64 (6667 / 100) \<and> binary64 (6667 / 100) \<le> 100 \<and> 0 \<le> binary64 (67 / 100) \<and>
     binary64 (67 / 100) \<le>
       of_int (max_tap_tries (init\<lparr>n_of_simulations := 3, max_tap_tries := 2\<rparr>))"
proof -
  let ?run = "run_simulation (deck_of [(''WU'', 2), (''W'', 2)]) 2
       (init\<lparr>n_of_simulations := 3, max_tap_tries := 2\<rparr>) (\<lambda>i. i div 4)"
  have "map_sum id (\<lambda>(s, g, a, p). (a, p)) ?run = Inr (binary64 (67 / 100), binary64 (6667 / 100))"
    by code_simp
  then obtain s2 g2 where r: "?run = Inr (s2, g2, binary64 (67 / 100), binary64 (6667 / 100))"
    by (cases ?run) auto
  have c: "0 \<le> max_tap_tries (init\<lparr>n_of_simulations := 3, max_tap_tries := 2\<rparr>)"
    by simp
  have f: "binary64 (of_int (max_tap_tries (init\<lparr>n_of_simulations := 3, max_tap_tries := 2\<rparr>))) =
       of_int (max_tap_tries (init\<lparr>n_of_simulations := 3, max_tap_tries := 2\<rparr>))"
    using binary64_of_int[of 2] by simp
  from reported_statistics_in_range[OF r c f] r c f show ?thesis by blast
qed

text \<open>
  C6, as the specification states it, fails. With two plains and one island, two lands per
  hand and a shuffle that leaves the pile in place, both trials draw two plains, both are
  counted as impossible, and the run then evaluates \<^verbatim>\<open>total_tries / 0\<close>: it ends with
  \<^verbatim>\<open>ZeroDivisionError\<close>. Nothing in \<^verbatim>\<open>run_simulation\<close> tests for this case.
\<close>

theorem degenerate_run_counterexample:
  "map_sum id (\<lambda>(s, g). (impossible s, n_of_simulations s))
     (trials 2 2
        (init\<lparr>n_of_simulations := 2, deck_colors := Some ''WU'',
              land_base := zip land_types (deck_of [(''W'', 2), (''U'', 1)]),
              draw_pile := [''W'', ''W'', ''U'']\<rparr>) (\<lambda>_. 5)) = Inr (2, 2) \<and>
   initialize (deck_of [(''W'', 2), (''U'', 1)]) (init\<lparr>n_of_simulations := 2\<rparr>) =
     Inr (init\<lparr>n_of_simulations := 2, deck_colors := Some ''WU'',
               land_base := zip land_types (deck_of [(''W'', 2), (''U'', 1)]),
               draw_pile := [''W'', ''W'', ''U'']\<rparr>) \<and>
   run_simulation (deck_of [(''W'', 2), (''U'', 1)]) 2 (init\<lparr>n_of_simulations := 2\<rparr>) (\<lambda>_. 5) =
     Inl ZeroDivisionError"
proof -
  let ?run = "run_simulation (deck_of [(''W'', 2), (''U'', 1)]) 2
      (init\<lparr>n_of_simulations := 2\<rparr>) (\<lambda>_. 5)"
  have "map_sum id (\<lambda>_. ()) ?run = Inl ZeroDivisionError"
    by code_simp
  then have r: "?run = Inl ZeroDivisionError"
    by (cases ?run) simp_all
  have t: "map_sum id (\<lambda>(s, g). (impossible s, n_of_simulations s))
     (trials 2 2
        (init\<lparr>n_of_simulations := 2, deck_colors := Some ''WU'',
              land_base := zip land_types (deck_of [(''W'', 2), (''U'', 1)]),
              draw_pile := [''W'', ''W'', ''U'']\<rparr>) (\<lambda>_. 5)) = Inr (2, 2)"
    by code_simp
  have i: "initialize (deck_of [(''W'', 2), (''U'', 1)]) (init\<lparr>n_of_simulations := 2\<rparr>) =
     Inr (init\<lparr>n_of_simulations := 2, deck_colors := Some ''WU'',
               land_base := zip land_types (deck_of [(''W'', 2), (''U'', 1)]),
               draw_pile := [''W'', ''W'', ''U'']\<rparr>)"
    by code_simp
  from t i r show ?thesis by (intro conjI)
qed

text \<open>
  C6, amended. A run whose trials complete with \<^verbatim>\<open>impossible\<close> equal to
  \<^verbatim>\<open>n_of_simulations\<close> is not detected: the division for the average is carried out, raises
  \<^verbatim>\<open>ZeroDivisionError\<close>, and the run ends with that exception and without statistics.
\<close>

theorem all_impossible_run_raises:
  assumes "initialize parts s = Inr s1"
    and "trials (nat (n_of_simulations s1)) n_of_lands s1 g = Inr (s2, g2)"
    and "impossible s2 = n_of_simulations s2"
  shows "run_simulation parts n_of_lands s g = Inl ZeroDivisionError"
proof -
  from assms(3) have "average_of s2 = Inl ZeroDivisionError"
    by (simp add: average_of_def int_truediv_def)
  then show ?thesis by (simp only: run_simulation_unfold[OF assms(1,2)] sum.case)
qed

theorem all_impossible_run_raises_witness:
  "\<exists>g2.
     initialize (deck_of [(''W'', 1), (''C'', 2)]) (init\<lparr>n_of_simulations := 1\<rparr>) =
       Inr (init\<lparr>n_of_simulations := 1, deck_colors := Some ''W'',
                 land_base := zip land_types (deck_of [(''W'', 1), (''C'', 2)]),
                 draw_pile := [''W'', ''C'', ''C'']\<rparr>) \<and>
     trials 1 1
       (init\<lparr>n_of_simulations := 1, deck_colors := Some ''W'',
             land_base := zip land_types (deck_of [(''W'', 1), (''C'', 2)]),
             draw_pile := [''W'', ''C'', ''C'']\<rparr>) (\<lambda>_. 0) =
       Inr (init\<lparr>n_of_simulations := 1, deck_colors := Some ''W'',
                 land_base := zip land_types (deck_of [(''W'', 1), (''C'', 2)]),
                 draw_pile := [''W'', ''C'', ''C''], impossible := 1\<rparr>, g2) \<and>
     run_simulation (deck_of [(''W'', 1), (''C'', 2)]) 1 (init\<lparr>n_of_simulations := 1\<rparr>) (\<lambda>_. 0) =
       Inl ZeroDivisionError"
proof -
  let ?s1 = "init\<lparr>n_of_simulations := 1, deck_colors := Some ''W'',
                 land_base := zip land_types (deck_of [(''W'', 1), (''C'', 2)]),
                 draw_pile := [''W'', ''C'', ''C'']\<rparr>"
  let ?s2 = "init\<lparr>n_of_simulations := 1, deck_colors := Some ''W'',
                 land_base := zip land_types (deck_of [(''W'', 1), (''C'', 2)]),
                 draw_pile := [''W'', ''C'', ''C''], impossible := 1\<rparr>"
  have i: "initialize (deck_of [(''W'', 1), (''C'', 2)]) (init\<lparr>n_of_simulations := 1\<rparr>) = Inr ?s1"
    by code_simp
  have n: "nat (n_of_simulations ?s1) = 1" by simp
  have "map_sum id fst (trials 1 1 ?s1 (\<lambda>_. 0)) = Inr ?s2"
    by code_simp
  then obtain g2 where t: "trials 1 1 ?s1 (\<lambda>_. 0) = Inr (?s2, g2)"
    by (cases "trials 1 1 ?s1 (\<lambda>_. 0)") auto
  have e: "impossible ?s2 = n_of_simulations ?s2" by simp
  from all_impossible_run_raises[OF i t[folded n] e] i t show ?thesis by blast
qed

end
